theory Spec2Isabelle
  imports Complex_Main "HOL-Library.AList" "HOL-Library.Char_ord" "HOL-Library.List_Lexorder"
begin

section \<open>Soma Status Monitor: data model\<close>

text \<open>
  The monitor script (the second document of \<^verbatim>\<open>astro.config.mjs\<close>) and the
  status page helper \<^verbatim>\<open>getOverallStatus\<close> (in \<^verbatim>\<open>constants.ts\<close>, second
  document) are embedded here. JavaScript objects used as dictionaries are association
  lists read with \<^const>\<open>map_of\<close> and written with \<^const>\<open>AList.update\<close>, which
  keeps a present key in place and appends a new one, as property assignment does.
  A read \<^verbatim>\<open>obj[key]\<close> that finds no own property goes on to the members every
  object inherits; where the script depends on that (the summaries of a daily record)
  the model says so. Millisecond values and counters are integers and natural numbers,
  exact below \<open>2^53\<close>. The uptime percentage is computed in double arithmetic,
  modelled in the section on \<^verbatim>\<open>updateDailyFile\<close>; half of a timeout, the mean of
  the response times and 95 percent of a count are exact rationals.
\<close>

datatype status = Up | Degraded | Down

record validate_rule =
  v_field :: string
  v_value :: string

text \<open>The objects pushed by \<^verbatim>\<open>buildChecks\<close>.\<close>

record "check" =
  check_id :: string
  check_name :: string
  check_url :: string
  check_timeout :: int
  check_validate :: "validate_rule option"
  check_expectedStatusCodes :: "int list"

text \<open>\<^verbatim>\<open>CheckResult\<close> of \<^verbatim>\<open>types.ts\<close>.\<close>

record checkResult =
  status :: status
  responseTime :: int
  statusCode :: int

subsection \<open>What a request can do\<close>

text \<open>
  \<^verbatim>\<open>executeCheck\<close> awaits \<^verbatim>\<open>fetch\<close> and, when validation is configured,
  \<^verbatim>\<open>response.json()\<close>. Both belong to the runtime, so their result is an input of
  the model. A property read \<^verbatim>\<open>body[f]\<close> yields a string, some other value, or
  \<^verbatim>\<open>undefined\<close> (no entry in the table); on a body that decoded to \<^verbatim>\<open>null\<close>
  the read throws.
\<close>

datatype jsval = JString string | JNumber int | JBool bool | JNull

datatype body =
    Undecodable
  | NullBody
  | Props "(string \<times> jsval) list"

datatype fetch_outcome =
    Rejected int
  | Responded int int body

text \<open>
  \<open>Rejected t\<close>: \<^verbatim>\<open>fetch\<close> threw (transport failure, or the abort fired by the
  timer), and \<open>t\<close> is \<^verbatim>\<open>Date.now() - start\<close> read in the \<^verbatim>\<open>catch\<close> block.
  \<open>Responded t code b\<close>: \<^verbatim>\<open>fetch\<close> resolved after \<open>t\<close> milliseconds with
  \<^verbatim>\<open>response.status = code\<close> and a body that decodes as \<open>b\<close>.
\<close>

section \<open>executeCheck\<close>

definition executeCheck :: "check \<Rightarrow> fetch_outcome \<Rightarrow> checkResult" where
  "executeCheck c outcome =
     (case outcome of
        Rejected t \<Rightarrow> \<lparr>status = Down, responseTime = t, statusCode = 0\<rparr>
      | Responded t code b \<Rightarrow>
          (let isExpectedStatus = (code \<in> set (check_expectedStatusCodes c));
               validationPassed =
                 (case check_validate c of
                    None \<Rightarrow> True
                  | Some v \<Rightarrow>
                      if isExpectedStatus then
                        (case b of
                           Undecodable \<Rightarrow> False
                         | NullBody \<Rightarrow> False
                         | Props ps \<Rightarrow> map_of ps (v_field v) = Some (JString (v_value v)))
                      else True)
           in if \<not> isExpectedStatus \<or> \<not> validationPassed
              then \<lparr>status = Down, responseTime = t, statusCode = code\<rparr>
              else
                (let degradedThreshold = (of_int (check_timeout c) :: rat) * (1 / 2)
                 in \<lparr>status = (if of_int t > degradedThreshold then Degraded else Up),
                      responseTime = t, statusCode = code\<rparr>)))"

text \<open>
  A response that \<^verbatim>\<open>fetch\<close> resolves with carries the status code of an HTTP
  response, a three-digit number; only a request that never completed is reported
  with code 0, by the \<^verbatim>\<open>catch\<close> block.
\<close>

definition http_outcome :: "fetch_outcome \<Rightarrow> bool" where
  "http_outcome outcome =
     (case outcome of
        Rejected t \<Rightarrow> True
      | Responded t code b \<Rightarrow> 100 \<le> code \<and> code \<le> 999)"

text \<open>The body passes the rule: the named property is a string equal to the expected one.\<close>

definition body_matches :: "validate_rule \<Rightarrow> body \<Rightarrow> bool" where
  "body_matches v b =
     (case b of
        Undecodable \<Rightarrow> False
      | NullBody \<Rightarrow> False
      | Props ps \<Rightarrow> map_of ps (v_field v) = Some (JString (v_value v)))"

text \<open>The body passes the probe's validation, if the probe has one.\<close>

definition validation_ok :: "check \<Rightarrow> body \<Rightarrow> bool" where
  "validation_ok c b =
     (case check_validate c of None \<Rightarrow> True | Some v \<Rightarrow> body_matches v b)"

section \<open>getOverallStatus\<close>

record dayData =
  dd_date :: string
  dd_uptimePercent :: rat
  dd_avgResponseTime :: int
  dd_status :: status
  dd_totalChecks :: nat

record componentStatus =
  cs_id :: string
  cs_name :: string
  cs_status :: status
  cs_uptimePercent :: rat
  cs_avgResponseTime :: int
  cs_dailyData :: "dayData list"

record groupStatus =
  gs_id :: string
  gs_name :: string
  gs_description :: string
  gs_uptimePercent :: rat
  gs_status :: status
  gs_components :: "componentStatus list"

record overall =
  o_status :: status
  o_label :: string

definition getOverallStatus :: "groupStatus list \<Rightarrow> overall" where
  "getOverallStatus gs =
     (let hasDown = list_ex (\<lambda>g. list_ex (\<lambda>c. cs_status c = Down) (gs_components g)) gs
      in \<lparr>o_status = (if hasDown then Down else Up),
          o_label = (if hasDown then ''System Outage'' else ''All Systems Operational'')\<rparr>)"

section \<open>Probe resolution: buildChecks\<close>

text \<open>
  The configuration as \<^verbatim>\<open>config.json\<close> gives it. A field that may be missing is
  an \<open>option\<close>. The coordinates are only ever spliced into a URL, so they are kept
  as the text JavaScript prints for them.
\<close>

record componentConfig =
  cc_id :: string
  cc_name :: string
  cc_endpoint :: "string option"
  cc_url :: "string option"
  cc_params :: "bool option"
  cc_timeout :: "int option"
  cc_validate :: "validate_rule option"
  cc_expectedStatusCodes :: "int list option"

record groupConfig =
  gc_id :: string
  gc_name :: string
  gc_description :: string
  gc_components :: "componentConfig list"

record externalConfig =
  ec_id :: string
  ec_name :: string
  ec_url :: string
  ec_timeout :: "int option"

record config =
  baseUrl :: string
  testLat :: string
  testLon :: string
  groups :: "groupConfig list"
  external :: "externalConfig list"

text \<open>
  \<^verbatim>\<open>x || 10000\<close> on a timeout: a missing value and 0 are both falsy. Likewise
  \<^verbatim>\<open>if (comp.url)\<close> takes a missing URL and the empty string to the template
  branch, where a missing endpoint prints as \<^verbatim>\<open>undefined\<close>.
\<close>

definition timeout_or_default :: "int option \<Rightarrow> int" where
  "timeout_or_default t = (case t of None \<Rightarrow> 10000 | Some n \<Rightarrow> if n = 0 then 10000 else n)"

definition componentCheck :: "config \<Rightarrow> componentConfig \<Rightarrow> check" where
  "componentCheck cfg component =
     (let url =
            (case cc_url component of
               Some (c # cs) \<Rightarrow> c # cs
             | _ \<Rightarrow>
                 (let params = (if cc_params component = Some True
                                then ''?lat='' @ testLat cfg @ ''&lon='' @ testLon cfg
                                else [])
                  in baseUrl cfg
                     @ (case cc_endpoint component of None \<Rightarrow> ''undefined'' | Some e \<Rightarrow> e)
                     @ params))
      in \<lparr>check_id = cc_id component,
          check_name = cc_name component,
          check_url = url,
          check_timeout = timeout_or_default (cc_timeout component),
          check_validate = cc_validate component,
          check_expectedStatusCodes =
            (case cc_expectedStatusCodes component of None \<Rightarrow> [200] | Some codes \<Rightarrow> codes)\<rparr>)"

definition externalCheck :: "externalConfig \<Rightarrow> check" where
  "externalCheck ext =
     \<lparr>check_id = ec_id ext,
      check_name = ec_name ext,
      check_url = ec_url ext,
      check_timeout = timeout_or_default (ec_timeout ext),
      check_validate = None,
      check_expectedStatusCodes = [200]\<rparr>"

text \<open>
  The two loops of \<^verbatim>\<open>buildChecks\<close> push one check for every component of every
  group, then one for every external dependency. Nothing in the function compares ids,
  and it has no failing branch.
\<close>

definition buildChecks :: "config \<Rightarrow> check list" where
  "buildChecks cfg =
     concat (map (\<lambda>group. map (componentCheck cfg) (gc_components group)) (groups cfg))
     @ map externalCheck (external cfg)"

section \<open>runAllChecks\<close>

record checkEntry =
  timestamp :: string
  results :: "(string \<times> checkResult) list"

text \<open>
  Every check is started at once: the \<open>k\<close>-th one issues \<^verbatim>\<open>fetch(check.url)\<close>
  and later stores its result under its id, \<^verbatim>\<open>results[check.id] = result\<close>. The
  network is the function \<open>net\<close> from the position of a check to what its request does.
  The stores are taken in the order of the checks; with distinct ids the order does not
  change what is stored under each id. Besides the entry, the model returns the URLs
  fetched.
\<close>

definition runAllChecks ::
  "check list \<Rightarrow> string \<Rightarrow> (nat \<Rightarrow> fetch_outcome) \<Rightarrow> checkEntry \<times> string list" where
  "runAllChecks cs ts net =
     (\<lparr>timestamp = ts,
       results = fold (\<lambda>(k, c) rs. AList.update (check_id c) (executeCheck c (net k)) rs)
                   (enumerate 0 cs) []\<rparr>,
      map check_url cs)"

section \<open>Daily records\<close>

record daySummary =
  totalChecks :: nat
  upChecks :: nat
  degradedChecks :: nat
  downChecks :: nat
  uptimePercent :: rat
  avgResponseTime :: int
  p95ResponseTime :: int

record dailyFile =
  date :: string
  checks :: "checkEntry list"
  summary :: "(string \<times> daySummary) list"

text \<open>
  A file of the checks directory is text. \<^verbatim>\<open>JSON.parse\<close> either throws on it
  (\<open>Unparsable\<close>) or yields the daily record it holds.
\<close>

datatype stored = Unparsable | Doc dailyFile

type_synonym dir = "(string \<times> stored) list"

datatype error = SyntaxError | NoSuchDirectory

subsection \<open>Dates\<close>

text \<open>
  The dates of the script come from the runtime's \<^verbatim>\<open>Date\<close>, which is not code
  of the repository; what the script uses of it is written out here. A UTC date is a
  year, a month and a day of the proleptic Gregorian calendar.
  \<^verbatim>\<open>d.setUTCDate(d.getUTCDate() - n)\<close> moves \<open>n\<close> days back, and the date part of
  \<^verbatim>\<open>toISOString()\<close> is \<open>YYYY-MM-DD\<close> for the years 0 to 9999 and carries a sign
  and six digits for the other years.
\<close>

datatype utcdate = Date (year: int) (month: nat) (day: nat)

definition leap_year :: "int \<Rightarrow> bool" where
  "leap_year y = ((y mod 4 = 0 \<and> y mod 100 \<noteq> 0) \<or> y mod 400 = 0)"

definition days_in_month :: "int \<Rightarrow> nat \<Rightarrow> nat" where
  "days_in_month y m =
     (if m = 2 then (if leap_year y then 29 else 28)
      else if m = 4 \<or> m = 6 \<or> m = 9 \<or> m = 11 then 30
      else 31)"

definition valid_date :: "utcdate \<Rightarrow> bool" where
  "valid_date d =
     (0 \<le> year d \<and> year d \<le> 9999 \<and> 1 \<le> month d \<and> month d \<le> 12
      \<and> 1 \<le> day d \<and> day d \<le> days_in_month (year d) (month d))"

fun prev_day :: "utcdate \<Rightarrow> utcdate" where
  "prev_day (Date y m d) =
     (if 1 < d then Date y m (d - 1)
      else if 1 < m then Date y (m - 1) (days_in_month y (m - 1))
      else Date (y - 1) 12 31)"

fun days_before :: "nat \<Rightarrow> utcdate \<Rightarrow> utcdate" where
  "days_before 0 d = d"
| "days_before (Suc n) d = days_before n (prev_day d)"

definition digit :: "nat \<Rightarrow> char" where
  "digit n = char_of (48 + n)"

definition pad2 :: "nat \<Rightarrow> string" where
  "pad2 n = [digit (n div 10 mod 10), digit (n mod 10)]"

definition pad4 :: "nat \<Rightarrow> string" where
  "pad4 n = [digit (n div 1000 mod 10), digit (n div 100 mod 10),
             digit (n div 10 mod 10), digit (n mod 10)]"

definition pad6 :: "nat \<Rightarrow> string" where
  "pad6 n = [digit (n div 100000 mod 10), digit (n div 10000 mod 10)] @ pad4 n"

definition toISODate :: "utcdate \<Rightarrow> string" where
  "toISODate d =
     (if 0 \<le> year d \<and> year d \<le> 9999 then pad4 (nat (year d))
      else (if year d < 0 then ''-'' else ''+'') @ pad6 (nat \<bar>year d\<bar>))
     @ ''-'' @ pad2 (month d) @ ''-'' @ pad2 (day d)"

text \<open>The chronological order of dates.\<close>

definition date_less :: "utcdate \<Rightarrow> utcdate \<Rightarrow> bool" where
  "date_less a b =
     (year a < year b
      \<or> (year a = year b \<and> (month a < month b \<or> (month a = month b \<and> day a < day b))))"

definition fileName :: "utcdate \<Rightarrow> string" where
  "fileName d = toISODate d @ ''.json''"

section \<open>updateDailyFile\<close>

definition initSummary :: daySummary where
  "initSummary = \<lparr>totalChecks = 0, upChecks = 0, degradedChecks = 0, downChecks = 0,
     uptimePercent = 100, avgResponseTime = 0, p95ResponseTime = 0\<rparr>"

text \<open>\<^verbatim>\<open>Math.round\<close>: the nearest integer, a half going up.\<close>

definition Math_round :: "rat \<Rightarrow> int" where
  "Math_round x = \<lfloor>x + 1 / 2\<rfloor>"

subsection \<open>Double arithmetic\<close>

text \<open>
  A JavaScript number is an IEEE 754 double: a rational \<open>k * 2^e\<close> with an integer
  \<open>k\<close> of at most 53 bits. Division and multiplication return the double nearest to
  the exact result, a tie going to the even \<open>k\<close>. \<open>fl\<close> is that rounding: the
  argument is scaled by powers of two, which is exact, until it lies between
  \<open>2^52\<close> and \<open>2^53\<close>, where the doubles are the integers. The range of the
  exponent is not modelled; the numbers of the script stay far inside it.
\<close>

definition round_even :: "rat \<Rightarrow> int" where
  "round_even m =
     (let f = \<lfloor>m\<rfloor>; r = m - of_int f
      in if r < 1 / 2 then f
         else if 1 / 2 < r then f + 1
         else if even f then f else f + 1)"

function scale_up :: "rat \<Rightarrow> rat" where
  "scale_up x = (if 0 < x \<and> x < 2 ^ 52 then scale_up (2 * x) / 2 else of_int (round_even x))"
  by pat_completeness auto
termination
proof (relation "measure (\<lambda>x. nat \<lceil>2 ^ 52 / x\<rceil>)")
  show "wf (measure (\<lambda>x::rat. nat \<lceil>2 ^ 52 / x\<rceil>))" by simp
next
  fix x :: rat
  assume a: "0 < x \<and> x < 2 ^ 52"
  define y where "y = 2 ^ 52 / x"
  from a have y1: "1 < y" by (simp add: y_def)
  then have c2: "2 \<le> \<lceil>y\<rceil>" by linarith
  have "y / 2 \<le> of_int \<lceil>y\<rceil> / 2" by simp
  also have "\<dots> \<le> of_int (\<lceil>y\<rceil> - 1)" using c2 by simp
  finally have "\<lceil>y / 2\<rceil> \<le> \<lceil>y\<rceil> - 1" by (simp only: ceiling_le_iff)
  with c2 have "nat \<lceil>y / 2\<rceil> < nat \<lceil>y\<rceil>" by linarith
  moreover have "2 ^ 52 / (2 * x) = y / 2" by (simp add: y_def)
  ultimately show "(2 * x, x) \<in> measure (\<lambda>x. nat \<lceil>2 ^ 52 / x\<rceil>)"
    by (simp only: in_measure y_def)
qed

function scale_down :: "rat \<Rightarrow> rat" where
  "scale_down x = (if 2 ^ 53 \<le> x then 2 * scale_down (x / 2) else of_int (round_even x))"
  by pat_completeness auto
termination
proof (relation "measure (\<lambda>x. nat \<lfloor>x\<rfloor>)")
  show "wf (measure (\<lambda>x::rat. nat \<lfloor>x\<rfloor>))" by simp
next
  fix x :: rat
  assume a: "2 ^ 53 \<le> x"
  then have "x / 2 \<le> x - 1" by simp
  then have "\<lfloor>x / 2\<rfloor> \<le> \<lfloor>x - 1\<rfloor>" by (rule floor_mono)
  then have "\<lfloor>x / 2\<rfloor> < \<lfloor>x\<rfloor>" by simp
  moreover from a have "0 < \<lfloor>x\<rfloor>" by simp
  ultimately show "(x / 2, x) \<in> measure (\<lambda>x. nat \<lfloor>x\<rfloor>)" by simp
qed

declare scale_up.simps [simp del] scale_down.simps [simp del]

definition fl :: "rat \<Rightarrow> rat" where
  "fl x =
     (if x < 0 then - (if - x < 2 ^ 52 then scale_up (- x) else scale_down (- x))
      else if x < 2 ^ 52 then scale_up x else scale_down x)"

text \<open>
  \<^verbatim>\<open>dailyFile.checks.map(c => c.results[id]?.responseTime).filter(t => t != null && t > 0)\<close>
\<close>

definition allResponseTimes :: "checkEntry list \<Rightarrow> string \<Rightarrow> int list" where
  "allResponseTimes cs i =
     [t. Some t \<leftarrow> map (\<lambda>c. map_option responseTime (map_of (results c) i)) cs, t > 0]"

definition p95Index :: "nat \<Rightarrow> int" where
  "p95Index n = \<lceil>(of_nat n :: rat) * (95 / 100)\<rceil> - 1"

text \<open>
  The body of the loop over \<^verbatim>\<open>Object.entries(checkEntry.results)\<close>, on the summary
  \<open>s\<close> of the id. The quotient of the counters, its product with 100 and the product of
  that with 100 are each rounded to a double. \<^verbatim>\<open>Math.round\<close> of a double is exact.
  The last quotient is the double nearest to \<open>n / 100\<close> for an integer \<open>n\<close> between 0
  and 10000; the record holds it as the decimal \<open>n / 100\<close>, which is what
  \<^verbatim>\<open>JSON.stringify\<close> writes for it, and so does the model.
\<close>

definition updateSummary :: "checkEntry list \<Rightarrow> string \<Rightarrow> checkResult \<Rightarrow> daySummary \<Rightarrow> daySummary" where
  "updateSummary cs i r s =
     (let s1 = s\<lparr>totalChecks := totalChecks s + 1\<rparr>;
          s2 = (if status r = Up then s1\<lparr>upChecks := upChecks s1 + 1\<rparr>
                else if status r = Degraded then s1\<lparr>degradedChecks := degradedChecks s1 + 1\<rparr>
                else s1\<lparr>downChecks := downChecks s1 + 1\<rparr>);
          s3 = s2\<lparr>uptimePercent :=
                   fl (fl (of_nat (upChecks s2 + degradedChecks s2) / of_nat (totalChecks s2)) * 100)\<rparr>;
          s4 = s3\<lparr>uptimePercent := of_int (Math_round (fl (uptimePercent s3 * 100))) / 100\<rparr>;
          ts = allResponseTimes cs i
      in if length ts > 0 then
           (let sortedTs = sort ts
            in s4\<lparr>avgResponseTime := Math_round (of_int (sum_list ts) / of_nat (length ts)),
                  p95ResponseTime := sortedTs ! nat (max 0 (p95Index (length sortedTs)))\<rparr>)
         else s4)"

text \<open>
  The two lines that compute \<open>uptimePercent\<close>, as a function of the counters they
  read: \<open>a\<close> checks up or degraded out of \<open>t\<close>.
\<close>

definition double_percent :: "nat \<Rightarrow> nat \<Rightarrow> rat" where
  "double_percent a t =
     of_int (Math_round (fl (fl (fl (of_nat a / of_nat t) * 100) * 100))) / 100"

text \<open>
  \<^verbatim>\<open>if (!dailyFile.summary[id])\<close> and \<^verbatim>\<open>const s = dailyFile.summary[id]\<close> read
  the property \<open>id\<close> of the summary object. When the object has no such property of
  its own, the read finds a member inherited from \<^verbatim>\<open>Object.prototype\<close> if \<open>id\<close> is
  the name of one. These members are functions (or, for \<^verbatim>\<open>__proto__\<close>, the prototype
  itself), hence truthy: nothing is initialised, the counters are written to the
  inherited member, and the summary object of the record stays as it was.
\<close>

definition objectPrototypeNames :: "string list" where
  "objectPrototypeNames =
     [''constructor'', ''__defineGetter__'', ''__defineSetter__'', ''hasOwnProperty'',
      ''__lookupGetter__'', ''__lookupSetter__'', ''isPrototypeOf'', ''propertyIsEnumerable'',
      ''toString'', ''valueOf'', ''__proto__'', ''toLocaleString'']"

definition summaryStep ::
  "checkEntry list \<Rightarrow> string \<times> checkResult \<Rightarrow> (string \<times> daySummary) list
     \<Rightarrow> (string \<times> daySummary) list" where
  "summaryStep cs ir sm =
     (case map_of sm (fst ir) of
        Some s \<Rightarrow> AList.update (fst ir) (updateSummary cs (fst ir) (snd ir) s) sm
      | None \<Rightarrow>
          if fst ir \<in> set objectPrototypeNames then sm
          else AList.update (fst ir) (updateSummary cs (fst ir) (snd ir) initSummary) sm)"

text \<open>Append the entry, then run the loop over its results.\<close>

definition aggregate :: "dailyFile \<Rightarrow> checkEntry \<Rightarrow> dailyFile" where
  "aggregate d e =
     (let cs = checks d @ [e]
      in d\<lparr>checks := cs, summary := fold (summaryStep cs) (results e) (summary d)\<rparr>)"

text \<open>
  The file system is the content of the checks directory, or \<open>None\<close> when the
  directory does not exist (\<^verbatim>\<open>main\<close> creates it before anything else). A file that
  exists is parsed with no handler around \<^verbatim>\<open>JSON.parse\<close>: the exception leaves
  the function before anything is written.
\<close>

definition updateDailyFile :: "utcdate \<Rightarrow> checkEntry \<Rightarrow> dir option \<Rightarrow> error + dir option" where
  "updateDailyFile today checkEntry fs =
     (case fs of
        None \<Rightarrow> Inl NoSuchDirectory
      | Some files \<Rightarrow>
          (let filePath = fileName today
           in case map_of files filePath of
                Some Unparsable \<Rightarrow> Inl SyntaxError
              | Some (Doc dailyFile) \<Rightarrow>
                  Inr (Some (AList.update filePath (Doc (aggregate dailyFile checkEntry)) files))
              | None \<Rightarrow>
                  Inr (Some (AList.update filePath
                    (Doc (aggregate \<lparr>date = toISODate today, checks = [], summary = []\<rparr> checkEntry))
                    files))))"

section \<open>cleanupOldData\<close>

definition endsWith :: "string \<Rightarrow> string \<Rightarrow> bool" where
  "endsWith s suf = (length suf \<le> length s \<and> drop (length s - length suf) s = suf)"

text \<open>\<^verbatim>\<open>s.replace(pat, '')\<close> with a string pattern: the first occurrence is removed.\<close>

fun removeFirst :: "string \<Rightarrow> string \<Rightarrow> string" where
  "removeFirst pat [] = []"
| "removeFirst pat (c # cs) =
     (if take (length pat) (c # cs) = pat then drop (length pat) (c # cs)
      else c # removeFirst pat cs)"

text \<open>The two lines the function prints are kept as the record of what it changed.\<close>

datatype log_line = Deleted string | Stripped string

definition deleteStep :: "string \<Rightarrow> string \<Rightarrow> dir \<times> log_line list \<Rightarrow> dir \<times> log_line list" where
  "deleteStep cutoffStr f st =
     (let date = removeFirst ''.json'' f
      in if date < cutoffStr then (AList.delete f (fst st), snd st @ [Deleted f]) else st)"

definition stripYesterday :: "string \<Rightarrow> dir \<times> log_line list \<Rightarrow> dir \<times> log_line list" where
  "stripYesterday yesterdayStr st =
     (let yesterdayFile = yesterdayStr @ ''.json''
      in case map_of (fst st) yesterdayFile of
           None \<Rightarrow> st
         | Some Unparsable \<Rightarrow> st
         | Some (Doc data) \<Rightarrow>
             if checks data \<noteq> []
             then (AList.update yesterdayFile (Doc (data\<lparr>checks := []\<rparr>)) (fst st),
                   snd st @ [Stripped (yesterdayStr @ ''.json'')])
             else st)"

definition cleanupOldData :: "utcdate \<Rightarrow> dir option \<Rightarrow> dir option \<times> log_line list" where
  "cleanupOldData today fs =
     (case fs of
        None \<Rightarrow> (None, [])
      | Some dir0 \<Rightarrow>
          (let files = filter (\<lambda>f. endsWith f ''.json'') (map fst dir0);
               cutoffStr = toISODate (days_before 90 today);
               st1 = fold (deleteStep cutoffStr) files (dir0, []);
               yesterdayStr = toISODate (days_before 1 today);
               st2 = stripYesterday yesterdayStr st1
           in (Some (fst st2), snd st2)))"

section \<open>main\<close>

text \<open>
  One run: create the directory, run the checks, fold them into today's record, clean
  up. An exception anywhere reaches the handler of \<^verbatim>\<open>main().catch\<close>, which prints it
  and exits with code 1; what was written before stays written.
\<close>

datatype exit = Done | Failed error

record run =
  run_exit :: exit
  run_fetched :: "string list"
  run_fs :: "dir option"

definition main ::
  "config \<Rightarrow> utcdate \<Rightarrow> string \<Rightarrow> (nat \<Rightarrow> fetch_outcome) \<Rightarrow> dir option \<Rightarrow> run" where
  "main cfg today ts net fs =
     (let fs1 = (case fs of None \<Rightarrow> Some [] | Some files \<Rightarrow> Some files);
          ran = runAllChecks (buildChecks cfg) ts net
      in case updateDailyFile today (fst ran) fs1 of
           Inl e \<Rightarrow> \<lparr>run_exit = Failed e, run_fetched = snd ran, run_fs = fs1\<rparr>
         | Inr fs2 \<Rightarrow>
             \<lparr>run_exit = Done, run_fetched = snd ran,
              run_fs = fst (cleanupOldData today fs2)\<rparr>)"


section \<open>The properties stated of the daily record\<close>

text \<open>
  The definitions of this section are not code of the script. They say, in the words of
  the specification, what the summaries of a daily record should satisfy, and name the
  parts of the file system the statements are about.
\<close>

text \<open>The invariant of a \<^verbatim>\<open>DaySummary\<close>.\<close>

definition summary_ok :: "daySummary \<Rightarrow> bool" where
  "summary_ok s =
     (upChecks s + degradedChecks s + downChecks s = totalChecks s
      \<and> 0 \<le> uptimePercent s \<and> uptimePercent s \<le> 100)"

text \<open>
  Rounding to two decimals, a half going up: the nearest multiple of \<open>0.01\<close>.
\<close>

definition round2 :: "rat \<Rightarrow> rat" where
  "round2 x = of_int (round (x * 100)) / 100"

text \<open>The percentage of the checks that were up or degraded, as an exact number.\<close>

definition exact_percent :: "daySummary \<Rightarrow> rat" where
  "exact_percent s = of_nat (upChecks s + degradedChecks s) / of_nat (totalChecks s) * 100"

text \<open>The equation stated of \<open>uptimePercent\<close>, read in exact arithmetic.\<close>

definition uptime_formula :: "daySummary \<Rightarrow> bool" where
  "uptime_formula s = (uptimePercent s = round2 (exact_percent s))"

text \<open>
  A number lies half way between two consecutive numbers with two decimals.
\<close>

definition half_way :: "rat \<Rightarrow> bool" where
  "half_way x = (frac (x * 100) = 1 / 2)"

text \<open>What the checks directory holds under the file name of a date.\<close>

definition todaysRecord :: "utcdate \<Rightarrow> dir option \<Rightarrow> stored option" where
  "todaysRecord today fs = (case fs of None \<Rightarrow> None | Some files \<Rightarrow> map_of files (fileName today))"

text \<open>The entries and the summaries an update starts from: those of the file of the day, if it has one.\<close>

definition priorChecks :: "utcdate \<Rightarrow> dir option \<Rightarrow> checkEntry list" where
  "priorChecks today fs =
     (case todaysRecord today fs of Some (Doc d) \<Rightarrow> checks d | _ \<Rightarrow> [])"

definition priorSummaries :: "utcdate \<Rightarrow> dir option \<Rightarrow> (string \<times> daySummary) list" where
  "priorSummaries today fs =
     (case todaysRecord today fs of Some (Doc d) \<Rightarrow> summary d | _ \<Rightarrow> [])"

text \<open>
  The id has a summary after the loop: it has one already, or it is not the name of an
  inherited member.
\<close>

definition summarised :: "(string \<times> daySummary) list \<Rightarrow> string \<Rightarrow> bool" where
  "summarised sm i = (map_of sm i \<noteq> None \<or> i \<notin> set objectPrototypeNames)"

definition entryOr :: "(string \<times> daySummary) list \<Rightarrow> string \<Rightarrow> daySummary" where
  "entryOr sm i = (case map_of sm i of None \<Rightarrow> initSummary | Some s \<Rightarrow> s)"

definition priorSummary :: "utcdate \<Rightarrow> dir option \<Rightarrow> string \<Rightarrow> daySummary" where
  "priorSummary today fs i = entryOr (priorSummaries today fs) i"

text \<open>
  The response times recorded for a probe id that are present and strictly positive,
  in the order of the entries.
\<close>

definition positive_samples :: "checkEntry list \<Rightarrow> string \<Rightarrow> int list" where
  "positive_samples cs i =
     filter (\<lambda>t. 0 < t)
       (map responseTime
          (concat (map (\<lambda>c. case map_of (results c) i of None \<Rightarrow> [] | Some r \<Rightarrow> [r]) cs)))"

text \<open>The arithmetic mean, rounded to the nearest integer.\<close>

definition mean_rounded :: "int list \<Rightarrow> int" where
  "mean_rounded ts = round ((of_int (sum_list ts) :: rat) / of_nat (length ts))"

text \<open>The element at index \<open>ceil(0.95 * n) - 1\<close>, not below 0, of the samples sorted ascending.\<close>

definition percentile95 :: "int list \<Rightarrow> int" where
  "percentile95 ts = sort ts ! nat (max 0 (\<lceil>(95 / 100 :: rat) * of_nat (length ts)\<rceil> - 1))"



section \<open>Concrete inputs\<close>

definition probe0 :: "check" where
  "probe0 = \<lparr>check_id = ''api'', check_name = ''API'', check_url = ''https://x/health'',
     check_timeout = 10000, check_validate = None, check_expectedStatusCodes = [200]\<rparr>"

definition probe_ok :: "check" where
  "probe_ok = \<lparr>check_id = ''api'', check_name = ''API'', check_url = ''https://x/health'',
     check_timeout = 10000, check_validate = Some \<lparr>v_field = ''ok'', v_value = ''true''\<rparr>,
     check_expectedStatusCodes = [200]\<rparr>"

definition degraded_component :: componentStatus where
  "degraded_component = \<lparr>cs_id = ''api'', cs_name = ''API'', cs_status = Degraded,
     cs_uptimePercent = 100, cs_avgResponseTime = 6000, cs_dailyData = []\<rparr>"

definition degraded_group :: groupStatus where
  "degraded_group = \<lparr>gs_id = ''core'', gs_name = ''Core'', gs_description = ''Core services'',
     gs_uptimePercent = 100, gs_status = Degraded, gs_components = [degraded_component]\<rparr>"

definition today0 :: utcdate where
  "today0 = Date 2024 4 10"

definition apiEntry :: "string \<Rightarrow> status \<Rightarrow> int \<Rightarrow> int \<Rightarrow> checkEntry" where
  "apiEntry ts st t code =
     \<lparr>timestamp = ts, results = [(''api'', \<lparr>status = st, responseTime = t, statusCode = code\<rparr>)]\<rparr>"

definition entry5 :: checkEntry where
  "entry5 = apiEntry ''2024-04-10T00:20:00.000Z'' Up 105 200"

definition record4 :: dailyFile where
  "record4 =
     \<lparr>date = ''2024-04-10'',
      checks = [apiEntry ''2024-04-10T00:00:00.000Z'' Up 100 200,
                apiEntry ''2024-04-10T00:05:00.000Z'' Up 120 200,
                apiEntry ''2024-04-10T00:10:00.000Z'' Up 110 200,
                apiEntry ''2024-04-10T00:15:00.000Z'' Up 500 200],
      summary = [(''api'', \<lparr>totalChecks = 4, upChecks = 4, degradedChecks = 0, downChecks = 0,
                   uptimePercent = 100, avgResponseTime = 208, p95ResponseTime = 500\<rparr>)]\<rparr>"

definition record5 :: dailyFile where
  "record5 =
     \<lparr>date = ''2024-04-10'',
      checks = [apiEntry ''2024-04-10T00:00:00.000Z'' Up 100 200,
                apiEntry ''2024-04-10T00:05:00.000Z'' Up 120 200,
                apiEntry ''2024-04-10T00:10:00.000Z'' Up 110 200,
                apiEntry ''2024-04-10T00:15:00.000Z'' Up 500 200,
                apiEntry ''2024-04-10T00:20:00.000Z'' Up 105 200],
      summary = [(''api'', \<lparr>totalChecks = 5, upChecks = 5, degradedChecks = 0, downChecks = 0,
                   uptimePercent = 100, avgResponseTime = 187, p95ResponseTime = 500\<rparr>)]\<rparr>"

definition entry_mixed :: checkEntry where
  "entry_mixed = \<lparr>timestamp = ''2024-04-10T00:25:00.000Z'',
     results = [(''api'', \<lparr>status = Down, responseTime = 10001, statusCode = 0\<rparr>),
                (''db'', \<lparr>status = Degraded, responseTime = 6000, statusCode = 200\<rparr>)]\<rparr>"

definition record6 :: dailyFile where
  "record6 =
     \<lparr>date = ''2024-04-10'',
      checks = checks record5 @ [entry_mixed],
      summary = [(''api'', \<lparr>totalChecks = 6, upChecks = 5, degradedChecks = 0, downChecks = 1,
                   uptimePercent = 8333 / 100, avgResponseTime = 1823, p95ResponseTime = 10001\<rparr>),
                 (''db'', \<lparr>totalChecks = 1, upChecks = 0, degradedChecks = 1, downChecks = 0,
                   uptimePercent = 100, avgResponseTime = 6000, p95ResponseTime = 6000\<rparr>)]\<rparr>"

definition net0 :: "nat \<Rightarrow> fetch_outcome" where
  "net0 k = (if k = 0 then Responded 120 200 Undecodable else Rejected 10002)"


definition one_config :: config where
  "one_config =
     \<lparr>baseUrl = ''https://api.example.com'', testLat = ''35.1'', testLon = ''33.4'',
      groups = [\<lparr>gc_id = ''core'', gc_name = ''Core'', gc_description = ''Core services'',
                 gc_components =
                   [\<lparr>cc_id = ''api'', cc_name = ''Health'', cc_endpoint = Some ''/health'',
                     cc_url = None, cc_params = None, cc_timeout = Some 10000,
                     cc_validate = None, cc_expectedStatusCodes = None\<rparr>]\<rparr>],
      external = []\<rparr>"

definition corrupt_fs :: "dir option" where
  "corrupt_fs = Some [(''2024-04-10.json'', Unparsable)]"

definition archived :: "string \<Rightarrow> dailyFile" where
  "archived d =
     \<lparr>date = d, checks = [],
      summary = [(''api'', \<lparr>totalChecks = 288, upChecks = 287, degradedChecks = 0, downChecks = 1,
                   uptimePercent = 9965 / 100, avgResponseTime = 140, p95ResponseTime = 310\<rparr>)]\<rparr>"

definition yesterday_record :: dailyFile where
  "yesterday_record =
     \<lparr>date = ''2024-04-09'',
      checks = [apiEntry ''2024-04-09T23:50:00.000Z'' Up 100 200,
                apiEntry ''2024-04-09T23:55:00.000Z'' Down 10001 0],
      summary = [(''api'', \<lparr>totalChecks = 2, upChecks = 1, degradedChecks = 0, downChecks = 1,
                   uptimePercent = 50, avgResponseTime = 5051, p95ResponseTime = 10001\<rparr>)]\<rparr>"

definition dir_before :: dir where
  "dir_before =
     [(''2024-01-10.json'', Doc (archived ''2024-01-10'')),
      (''2024-01-11.json'', Doc (archived ''2024-01-11'')),
      (''2024-04-09.json'', Doc yesterday_record),
      (''2024-04-10.json'', Doc record5)]"

definition dir_after :: dir where
  "dir_after =
     [(''2024-01-11.json'', Doc (archived ''2024-01-11'')),
      (''2024-04-09.json'', Doc (yesterday_record\<lparr>checks := []\<rparr>)),
      (''2024-04-10.json'', Doc record5)]"

definition record159 :: dailyFile where
  "record159 =
     \<lparr>date = ''2024-04-10'',
      checks = replicate 96 (apiEntry ''2024-04-10T00:00:00.000Z'' Up 100 200)
               @ replicate 63 (apiEntry ''2024-04-10T08:00:00.000Z'' Down 10001 0),
      summary = [(''api'', \<lparr>totalChecks = 159, upChecks = 96, degradedChecks = 0, downChecks = 63,
                   uptimePercent = 6038 / 100, avgResponseTime = 4023, p95ResponseTime = 10001\<rparr>)]\<rparr>"

definition entry160 :: checkEntry where
  "entry160 = apiEntry ''2024-04-10T13:15:00.000Z'' Up 100 200"

definition constructor_entry :: checkEntry where
  "constructor_entry =
     \<lparr>timestamp = ''2024-04-10T00:00:00.000Z'',
      results = [(''constructor'', \<lparr>status = Up, responseTime = 120, statusCode = 200\<rparr>)]\<rparr>"


definition record160 :: dailyFile where
  "record160 =
     \<lparr>date = ''2024-04-10'',
      checks = checks record159 @ [entry160],
      summary = [(''api'', \<lparr>totalChecks = 160, upChecks = 97, degradedChecks = 0, downChecks = 63,
                   uptimePercent = 6062 / 100, avgResponseTime = 3999, p95ResponseTime = 10001\<rparr>)]\<rparr>"

definition constructor_record :: dailyFile where
  "constructor_record = \<lparr>date = ''2024-04-10'', checks = [constructor_entry], summary = []\<rparr>"

section \<open>Properties of executeCheck\<close>

lemma executeCheck_Rejected:
  "executeCheck c (Rejected t) = \<lparr>status = Down, responseTime = t, statusCode = 0\<rparr>"
  by (simp add: executeCheck_def)

lemma executeCheck_statusCode:
  "statusCode (executeCheck c (Responded t code b)) = code"
  by (simp add: executeCheck_def Let_def)

text \<open>
  C3. For every probe and every outcome of its request, a result with status code 0
  has status down. The status code of a completed response is that of an HTTP
  response (\<^const>\<open>http_outcome\<close>), so code 0 comes from the \<^verbatim>\<open>catch\<close> block only.
\<close>

theorem statusCode_zero_is_down:
  assumes "http_outcome outcome"
    and "statusCode (executeCheck c outcome) = 0"
  shows "status (executeCheck c outcome) = Down"
proof (cases outcome)
  case (Rejected t)
  then show ?thesis by (simp add: executeCheck_Rejected)
next
  case (Responded t code b)
  with assms(2) have "code = 0" by (simp add: executeCheck_statusCode)
  with assms(1) Responded show ?thesis by (simp add: http_outcome_def)
qed

theorem statusCode_zero_is_down_witness:
  "http_outcome (Rejected 10003) \<and> statusCode (executeCheck probe0 (Rejected 10003)) = 0
   \<and> status (executeCheck probe0 (Rejected 10003)) = Down"
proof -
  have h1: "http_outcome (Rejected 10003)" by (simp add: http_outcome_def)
  have h2: "statusCode (executeCheck probe0 (Rejected 10003)) = 0"
    by (simp add: executeCheck_def)
  from statusCode_zero_is_down [OF h1 h2] h1 h2 show ?thesis by simp
qed

text \<open>
  C6. A response with an accepted status code that passes the configured validation
  (if any) is degraded when its elapsed time is strictly more than half of the probe's
  timeout, and up otherwise. With a timeout of 10000 ms and status 200: 6000 ms is
  degraded, 3000 ms is up, and so is 5000 ms, exactly half.
\<close>

theorem latency_classification:
  assumes "code \<in> set (check_expectedStatusCodes c)"
    and "validation_ok c b"
  shows "status (executeCheck c (Responded t code b)) =
           (if 2 * t > check_timeout c then Degraded else Up)
         \<and> responseTime (executeCheck c (Responded t code b)) = t
         \<and> statusCode (executeCheck c (Responded t code b)) = code"
proof -
  have half: "(of_int t > (of_int (check_timeout c) :: rat) * (1 / 2))
              = (2 * t > check_timeout c)"
  proof -
    have "(of_int t > (of_int (check_timeout c) :: rat) * (1 / 2))
          = ((of_int (check_timeout c) :: rat) < of_int (2 * t))"
      by (simp add: field_simps)
    then show ?thesis by (simp only: of_int_less_iff)
  qed
  show ?thesis
  proof (cases "check_validate c")
    case None
    with assms(1) half show ?thesis by (simp add: executeCheck_def Let_def)
  next
    case (Some v)
    with assms(2) have "body_matches v b" by (simp add: validation_ok_def)
    with Some assms(1) half show ?thesis
      by (simp add: executeCheck_def Let_def body_matches_def split: body.splits)
  qed
qed

theorem latency_classification_witness:
  "200 \<in> set (check_expectedStatusCodes probe_ok)
   \<and> validation_ok probe_ok (Props [(''ok'', JString ''true'')])
   \<and> status (executeCheck probe_ok (Responded 6000 200 (Props [(''ok'', JString ''true'')])))
       = Degraded
   \<and> status (executeCheck probe_ok (Responded 3000 200 (Props [(''ok'', JString ''true'')])))
       = Up
   \<and> status (executeCheck probe_ok (Responded 5000 200 (Props [(''ok'', JString ''true'')])))
       = Up"
proof -
  have h1: "200 \<in> set (check_expectedStatusCodes probe_ok)" by (simp add: probe_ok_def)
  have h2: "validation_ok probe_ok (Props [(''ok'', JString ''true'')])"
    by (simp add: probe_ok_def validation_ok_def body_matches_def)
  have t: "check_timeout probe_ok = 10000" by (simp add: probe_ok_def)
  from latency_classification [OF h1 h2, of 6000] latency_classification [OF h1 h2, of 3000]
    latency_classification [OF h1 h2, of 5000] h1 h2 t
  show ?thesis by simp
qed

text \<open>
  C7. For a probe with a validation rule and a response with an accepted status code:
  when the body does not decode as JSON, or the named property is not a string equal
  to the expected value, the result is down and keeps the HTTP status code. Status 200
  with the rule \<open>ok = "true"\<close> and the body \<open>{"ok": "false"}\<close> is down.
\<close>

theorem validation_failure_is_down:
  assumes "check_validate c = Some v"
    and "code \<in> set (check_expectedStatusCodes c)"
    and "\<not> body_matches v b"
  shows "executeCheck c (Responded t code b)
           = \<lparr>status = Down, responseTime = t, statusCode = code\<rparr>"
  using assms
  by (simp add: executeCheck_def Let_def body_matches_def split: body.splits)

theorem validation_failure_is_down_witness:
  "check_validate probe_ok = Some \<lparr>v_field = ''ok'', v_value = ''true''\<rparr>
   \<and> 200 \<in> set (check_expectedStatusCodes probe_ok)
   \<and> \<not> body_matches \<lparr>v_field = ''ok'', v_value = ''true''\<rparr> (Props [(''ok'', JString ''false'')])
   \<and> executeCheck probe_ok (Responded 120 200 (Props [(''ok'', JString ''false'')]))
       = \<lparr>status = Down, responseTime = 120, statusCode = 200\<rparr>"
proof -
  have h1: "check_validate probe_ok = Some \<lparr>v_field = ''ok'', v_value = ''true''\<rparr>"
    by (simp add: probe_ok_def)
  have h2: "200 \<in> set (check_expectedStatusCodes probe_ok)" by (simp add: probe_ok_def)
  have h3: "\<not> body_matches \<lparr>v_field = ''ok'', v_value = ''true''\<rparr>
              (Props [(''ok'', JString ''false'')])"
    by (simp add: body_matches_def)
  from validation_failure_is_down [OF h1 h2 h3, of 120] h1 h2 h3 show ?thesis by simp
qed

section \<open>Properties of getOverallStatus\<close>

text \<open>
  C10. The overall status of the status page is never degraded: it is down exactly
  when some component of some group is down, and up otherwise; when no component is
  down (degraded ones included) the label is "All Systems Operational".
\<close>

theorem overall_status_never_degraded:
  "o_status (getOverallStatus gs) \<noteq> Degraded
   \<and> (o_status (getOverallStatus gs) = Down
        \<longleftrightarrow> (\<exists>g \<in> set gs. \<exists>c \<in> set (gs_components g). cs_status c = Down))
   \<and> (o_status (getOverallStatus gs) = Up
        \<longleftrightarrow> \<not> (\<exists>g \<in> set gs. \<exists>c \<in> set (gs_components g). cs_status c = Down))
   \<and> (\<not> (\<exists>g \<in> set gs. \<exists>c \<in> set (gs_components g). cs_status c = Down)
        \<longrightarrow> getOverallStatus gs
              = \<lparr>o_status = Up, o_label = ''All Systems Operational''\<rparr>)"
  by (simp add: getOverallStatus_def Let_def list_ex_iff)

theorem overall_status_never_degraded_witness:
  "\<not> (\<exists>g \<in> set [degraded_group]. \<exists>c \<in> set (gs_components g). cs_status c = Down)
   \<and> getOverallStatus [degraded_group]
       = \<lparr>o_status = Up, o_label = ''All Systems Operational''\<rparr>"
proof -
  have h: "\<not> (\<exists>g \<in> set [degraded_group]. \<exists>c \<in> set (gs_components g). cs_status c = Down)"
    by (simp add: degraded_group_def degraded_component_def)
  from overall_status_never_degraded [of "[degraded_group]"] h show ?thesis by blast
qed

section \<open>Properties of probe resolution\<close>










section \<open>Properties of the double arithmetic\<close>

lemma round_even_bounds:
  "of_int (round_even m) \<le> m + 1 / 2" "m - 1 / 2 \<le> of_int (round_even m)"
  unfolding round_even_def Let_def by (auto; linarith)+

lemma round_even_error: "\<bar>of_int (round_even m) - m\<bar> \<le> 1 / 2"
  using round_even_bounds [of m] by linarith

lemma round_even_nonneg: "0 \<le> m \<Longrightarrow> 0 \<le> round_even m"
  unfolding round_even_def Let_def by auto

lemma round_even_le_int: "m \<le> of_int B \<Longrightarrow> round_even m \<le> B"
proof -
  assume a: "m \<le> of_int B"
  then have f: "\<lfloor>m\<rfloor> \<le> B" by (simp add: floor_le_iff)
  show ?thesis
  proof (cases "\<lfloor>m\<rfloor> = B")
    case True
    with a have "m = of_int \<lfloor>m\<rfloor>" by linarith
    then have "m - of_int \<lfloor>m\<rfloor> = 0" by simp
    then show ?thesis using True unfolding round_even_def Let_def by simp
  next
    case False
    with f have "\<lfloor>m\<rfloor> + 1 \<le> B" by simp
    then show ?thesis unfolding round_even_def Let_def by auto
  qed
qed

lemma scale_up_rec: "0 < x \<Longrightarrow> x < 2 ^ 52 \<Longrightarrow> scale_up x = scale_up (2 * x) / 2"
  by (subst scale_up.simps) simp

lemma scale_up_base: "\<not> (0 < x \<and> x < 2 ^ 52) \<Longrightarrow> scale_up x = of_int (round_even x)"
  by (subst scale_up.simps) (simp only: if_False)

lemma scale_up_nonneg: "0 \<le> x \<Longrightarrow> 0 \<le> scale_up x"
proof (induction x rule: scale_up.induct)
  case (1 x)
  show ?case
  proof (cases "0 < x \<and> x < 2 ^ 52")
    case True
    with "1.IH" have "0 \<le> scale_up (2 * x)" by simp
    with True show ?thesis by (simp add: scale_up_rec)
  next
    case False
    then have eq: "scale_up x = of_int (round_even x)" by (rule scale_up_base)
    from "1.prems" round_even_nonneg [of x] show ?thesis unfolding eq by simp
  qed
qed

lemma scale_up_le_int: "x \<le> of_int B \<Longrightarrow> scale_up x \<le> of_int B"
proof (induction x arbitrary: B rule: scale_up.induct)
  case (1 x)
  show ?case
  proof (cases "0 < x \<and> x < 2 ^ 52")
    case True
    from "1.prems" have "2 * x \<le> of_int (2 * B)" by simp
    from "1.IH" [OF True this] have "scale_up (2 * x) \<le> 2 * of_int B" by simp
    with True show ?thesis by (simp add: scale_up_rec)
  next
    case False
    from round_even_le_int [OF "1.prems"] have "(of_int (round_even x) :: rat) \<le> of_int B"
      by (simp only: of_int_le_iff)
    moreover from False have "scale_up x = of_int (round_even x)" by (rule scale_up_base)
    ultimately show ?thesis by simp
  qed
qed

lemma scale_up_error: "0 \<le> x \<Longrightarrow> \<bar>scale_up x - x\<bar> \<le> x / 2 ^ 53"
proof (induction x rule: scale_up.induct)
  case (1 x)
  show ?case
  proof (cases "0 < x \<and> x < 2 ^ 52")
    case True
    with "1.IH" have "\<bar>scale_up (2 * x) - 2 * x\<bar> \<le> 2 * x / 2 ^ 53" by simp
    then have "\<bar>scale_up (2 * x) / 2 - x\<bar> \<le> x / 2 ^ 53" by (simp add: abs_le_iff field_simps)
    with True show ?thesis by (simp add: scale_up_rec)
  next
    case False
    show ?thesis
    proof (cases "x = 0")
      case True
      then have "scale_up x = of_int (round_even 0)" by (simp add: scale_up_base)
      with True show ?thesis by (simp add: round_even_def)
    next
      case nz: False
      with False "1.prems" have big: "2 ^ 52 \<le> x" by simp
      then have "1 / 2 \<le> x / 2 ^ 53" by simp
      with round_even_error [of x] have "\<bar>of_int (round_even x) - x\<bar> \<le> x / 2 ^ 53"
        by linarith
      moreover from False have "scale_up x = of_int (round_even x)" by (rule scale_up_base)
      ultimately show ?thesis by simp
    qed
  qed
qed

text \<open>A rounding is computed in one step once the power of two is known.\<close>

lemma scale_up_shift:
  "0 < x \<Longrightarrow> 2 ^ 52 \<le> x * 2 ^ n \<Longrightarrow> x * 2 ^ n < 2 ^ 53 \<Longrightarrow>
   scale_up x = of_int (round_even (x * 2 ^ n)) / 2 ^ n"
proof (induction n arbitrary: x)
  case 0
  then have "\<not> (0 < x \<and> x < 2 ^ 52)" by simp
  then show ?case by (simp add: scale_up_base)
next
  case (Suc n)
  from Suc.prems(3) have lt: "x < 2 ^ 52"
  proof -
    have "x * 2 \<le> x * 2 ^ Suc n" using Suc.prems(1) by simp
    with Suc.prems(3) show ?thesis by simp
  qed
  have "scale_up (2 * x) = of_int (round_even (2 * x * 2 ^ n)) / 2 ^ n"
    using Suc.prems by (intro Suc.IH) (simp_all add: mult.assoc mult.left_commute)
  with Suc.prems(1) lt show ?case
    by (simp add: scale_up_rec mult.assoc mult.left_commute)
qed

lemma fl_small:
  assumes "0 \<le> x" "x < 2 ^ 52"
  shows "fl x = scale_up x"
  using assms by (simp add: fl_def)

lemma fl_bounds:
  assumes "0 \<le> x" "x \<le> of_int B" "B < 2 ^ 52"
  shows "0 \<le> fl x" "fl x \<le> of_int B" "\<bar>fl x - x\<bar> \<le> x / 2 ^ 53"
proof -
  from assms(3) have "(of_int B :: rat) < of_int (2 ^ 52)" by (simp only: of_int_less_iff)
  with assms(2) have "x < 2 ^ 52" by simp
  with assms(1) have e: "fl x = scale_up x" by (rule fl_small)
  show "0 \<le> fl x" unfolding e using assms(1) by (rule scale_up_nonneg)
  show "fl x \<le> of_int B" unfolding e using assms(2) by (rule scale_up_le_int)
  show "\<bar>fl x - x\<bar> \<le> x / 2 ^ 53" unfolding e using assms(1) by (rule scale_up_error)
qed

lemma fl_shift:
  assumes "0 < x" "2 ^ 52 \<le> x * 2 ^ n" "x * 2 ^ n < 2 ^ 53"
  shows "fl x = of_int (round_even (x * 2 ^ n)) / 2 ^ n"
proof -
  have "x * 1 \<le> x * 2 ^ n" using assms(1) by (intro mult_left_mono) simp_all
  with assms(3) have "x < 2 ^ 53" by simp
  show ?thesis
  proof (cases "x < 2 ^ 52")
    case True
    with assms(1) have "fl x = scale_up x" by (simp add: fl_small)
    with scale_up_shift [OF assms] show ?thesis by simp
  next
    case False
    have "n = 0"
    proof (rule ccontr)
      assume "n \<noteq> 0"
      then obtain k where "n = Suc k" by (cases n) auto
      then have "x * 2 \<le> x * 2 ^ n" using assms(1) by simp
      with False assms(3) show False by simp
    qed
    with False \<open>x < 2 ^ 53\<close> show ?thesis
      by (simp add: fl_def scale_down.simps [of x])
  qed
qed

lemma fl_cert:
  assumes "0 < x" "2 ^ 52 \<le> x * 2 ^ n" "x * 2 ^ n < 2 ^ 53"
    and "round_even (x * 2 ^ n) = k" and "y = of_int k / 2 ^ n"
  shows "fl x = y"
  using fl_shift [OF assms(1-3)] assms(4,5) by simp

subsection \<open>The percentage in double arithmetic\<close>

lemma double_percent_steps:
  assumes "a \<le> t" "0 < t"
  shows "0 \<le> fl (fl (fl (of_nat a / of_nat t) * 100) * 100)"
    and "fl (fl (fl (of_nat a / of_nat t) * 100) * 100) \<le> 10000"
    and "\<bar>fl (fl (fl (of_nat a / of_nat t) * 100) * 100) - of_nat a / of_nat t * 10000\<bar>
           \<le> 30000 / 2 ^ 53"
proof -
  define x1 :: rat where "x1 = of_nat a / of_nat t"
  define q1 where "q1 = fl x1"
  define q2 where "q2 = fl (q1 * 100)"
  define q3 where "q3 = fl (q2 * 100)"
  have x0: "0 \<le> x1" by (simp add: x1_def)
  have "(of_nat a :: rat) \<le> of_nat t" using assms(1) by simp
  then have x1: "x1 \<le> of_int 1" using assms(2) by (simp add: x1_def divide_le_eq)
  note b1 = fl_bounds [OF x0 x1, folded q1_def]
  have q1: "0 \<le> q1" "q1 \<le> 1" "\<bar>q1 - x1\<bar> \<le> 1 / 2 ^ 53"
  proof -
    show "0 \<le> q1" using b1(1) by simp
    show "q1 \<le> 1" using b1(2) by simp
    have "x1 / 2 ^ 53 \<le> 1 / 2 ^ 53" using x1 by (simp add: divide_right_mono)
    with b1(3) show "\<bar>q1 - x1\<bar> \<le> 1 / 2 ^ 53" by simp
  qed
  have y0: "0 \<le> q1 * 100" using q1(1) by simp
  have y1: "q1 * 100 \<le> of_int 100" using q1(2) by simp
  note b2 = fl_bounds [OF y0 y1, folded q2_def]
  have q2: "0 \<le> q2" "q2 \<le> 100" "\<bar>q2 - q1 * 100\<bar> \<le> 100 / 2 ^ 53"
  proof -
    show "0 \<le> q2" using b2(1) by simp
    show "q2 \<le> 100" using b2(2) by simp
    have "q1 * 100 / 2 ^ 53 \<le> 100 / 2 ^ 53" using q1(2) by (simp add: divide_right_mono)
    with b2(3) show "\<bar>q2 - q1 * 100\<bar> \<le> 100 / 2 ^ 53" by simp
  qed
  have z0: "0 \<le> q2 * 100" using q2(1) by simp
  have z1: "q2 * 100 \<le> of_int 10000" using q2(2) by simp
  note b3 = fl_bounds [OF z0 z1, folded q3_def]
  have q3: "0 \<le> q3" "q3 \<le> 10000" "\<bar>q3 - q2 * 100\<bar> \<le> 10000 / 2 ^ 53"
  proof -
    show "0 \<le> q3" using b3(1) by simp
    show "q3 \<le> 10000" using b3(2) by simp
    have "q2 * 100 / 2 ^ 53 \<le> 10000 / 2 ^ 53" using q2(2) by (simp add: divide_right_mono)
    with b3(3) show "\<bar>q3 - q2 * 100\<bar> \<le> 10000 / 2 ^ 53" by simp
  qed
  have e: "\<bar>q3 - x1 * 10000\<bar> \<le> 30000 / 2 ^ 53" using q1(3) q2(3) q3(3) by linarith
  show "0 \<le> fl (fl (fl (of_nat a / of_nat t) * 100) * 100)"
    using q3(1) by (simp only: q3_def q2_def q1_def x1_def)
  show "fl (fl (fl (of_nat a / of_nat t) * 100) * 100) \<le> 10000"
    using q3(2) by (simp only: q3_def q2_def q1_def x1_def)
  show "\<bar>fl (fl (fl (of_nat a / of_nat t) * 100) * 100) - of_nat a / of_nat t * 10000\<bar>
           \<le> 30000 / 2 ^ 53"
    using e by (simp only: q3_def q2_def q1_def x1_def)
qed

lemma Math_round_bounds:
  assumes "0 \<le> x" "x \<le> of_int k"
  shows "0 \<le> Math_round x" "Math_round x \<le> k"
proof -
  show "0 \<le> Math_round x" using assms(1) by (simp add: Math_round_def)
  have "x + 1 / 2 < of_int k + 1" using assms(2) by simp
  then show "Math_round x \<le> k" by (simp add: Math_round_def floor_le_iff)
qed

lemma Math_round_error: "\<bar>of_int (Math_round x) - x\<bar> \<le> 1 / 2"
  unfolding Math_round_def by linarith

lemma double_percent_bounds:
  assumes "a \<le> t" "0 < t"
  shows "0 \<le> double_percent a t" "double_percent a t \<le> 100"
proof -
  let ?w = "fl (fl (fl (of_nat a / of_nat t) * 100) * 100)"
  have w: "0 \<le> ?w" "?w \<le> of_int 10000" using double_percent_steps [OF assms] by simp_all
  from Math_round_bounds [OF w]
  have "(0::rat) \<le> of_int (Math_round ?w)" "(of_int (Math_round ?w) :: rat) \<le> of_int 10000"
    by (simp_all only: of_int_0_le_iff of_int_le_iff)
  then show "0 \<le> double_percent a t" "double_percent a t \<le> 100"
    by (simp_all add: double_percent_def)
qed

text \<open>
  The result is a nearest multiple of \<open>0.01\<close> to the exact percentage: the three
  roundings move the product by less than the distance of a fraction of denominator
  \<open>t\<close> from a half, as long as \<open>t\<close> is below \<open>10^11\<close>.
\<close>

lemma double_percent_nearest:
  assumes "a \<le> t" "0 < t" "t < 10 ^ 11"
  shows "\<bar>double_percent a t - of_nat a / of_nat t * 100\<bar> \<le> 1 / 200"
proof -
  let ?w = "fl (fl (fl (of_nat a / of_nat t) * 100) * 100)"
  define n where "n = Math_round ?w"
  define X :: rat where "X = of_nat a / of_nat t * 10000"
  have tpos: "(0::rat) < of_nat t" using assms(2) by simp
  have "\<bar>of_int n - ?w\<bar> \<le> 1 / 2" unfolding n_def by (rule Math_round_error)
  moreover have "\<bar>?w - X\<bar> \<le> 30000 / 2 ^ 53"
    unfolding X_def by (rule double_percent_steps(3) [OF assms(1,2)])
  ultimately have d: "\<bar>of_int n - X\<bar> \<le> 1 / 2 + 30000 / 2 ^ 53" by linarith
  define D :: int where "D = 2 * int t * n - 20000 * int a"
  have DX: "(of_int D :: rat) = 2 * of_nat t * (of_int n - X)"
    using tpos by (simp add: D_def X_def field_simps)
  have "\<bar>(of_int D :: rat)\<bar> = 2 * of_nat t * \<bar>of_int n - X\<bar>"
    unfolding DX using tpos by (simp add: abs_mult)
  also have "\<dots> \<le> 2 * of_nat t * (1 / 2 + 30000 / 2 ^ 53)"
    using d tpos by (intro mult_left_mono) simp_all
  also have "\<dots> = of_nat t + of_nat t * (60000 / 2 ^ 53)" by (simp add: field_simps)
  also have "\<dots> < of_nat t + 1"
  proof -
    have "(of_nat t :: rat) < of_nat (10 ^ 11)" using assms(3) by (simp only: of_nat_less_iff)
    then have "(of_nat t :: rat) * (60000 / 2 ^ 53) < 10 ^ 11 * (60000 / 2 ^ 53)" by simp
    also have "\<dots> < 1" by simp
    finally show ?thesis by simp
  qed
  finally have "(of_int \<bar>D\<bar> :: rat) < of_int (int t + 1)" by simp
  then have "\<bar>D\<bar> < int t + 1" by (simp only: of_int_less_iff)
  then have "\<bar>D\<bar> \<le> int t" by simp
  then have "(of_int \<bar>D\<bar> :: rat) \<le> of_int (int t)" by (simp only: of_int_le_iff)
  then have "2 * of_nat t * \<bar>of_int n - X\<bar> \<le> (of_nat t :: rat)"
    using DX tpos by (simp add: abs_mult)
  then have "\<bar>of_int n - X\<bar> \<le> 1 / 2" using tpos by (simp add: field_simps)
  then have "\<bar>of_int n / 100 - X / 100\<bar> \<le> 1 / 200" by (simp add: abs_le_iff field_simps)
  moreover have "X / 100 = of_nat a / of_nat t * 100" by (simp add: X_def)
  ultimately show ?thesis by (simp only: double_percent_def n_def)
qed

text \<open>
  Away from the half way points there is one nearest multiple of \<open>0.01\<close>, the one
  that rounding to two decimals gives.
\<close>

lemma nearest_is_round2:
  fixes x :: rat and n :: int
  assumes "\<bar>of_int n / 100 - x\<bar> \<le> 1 / 200" "\<not> half_way x"
  shows "of_int n / 100 = round2 x"
proof -
  define y where "y = x * 100"
  from assms(1) have lo: "of_int n \<le> y + 1 / 2" and hi: "y \<le> of_int n + 1 / 2"
    unfolding y_def by linarith+
  have "y \<noteq> of_int n + 1 / 2"
  proof
    assume e: "y = of_int n + 1 / 2"
    then have "\<lfloor>y\<rfloor> = n" by linarith
    with e have "frac y = 1 / 2" by (simp add: frac_def)
    with assms(2) show False by (simp add: half_way_def y_def)
  qed
  with hi have "y + 1 / 2 < of_int n + 1" by simp
  with lo have "\<lfloor>y + 1 / 2\<rfloor> = n" by (simp add: floor_unique)
  then show ?thesis by (simp add: round2_def round_def y_def)
qed

lemma double_percent_round2:
  assumes "a \<le> t" "0 < t" "t < 10 ^ 11" "\<not> half_way (of_nat a / of_nat t * 100)"
  shows "double_percent a t = round2 (of_nat a / of_nat t * 100)"
proof -
  define n where "n = Math_round (fl (fl (fl (of_nat a / of_nat t) * 100) * 100))"
  have d: "double_percent a t = of_int n / 100" by (simp only: double_percent_def n_def)
  from double_percent_nearest [OF assms(1-3)]
  have "\<bar>of_int n / 100 - (of_nat a :: rat) / of_nat t * 100\<bar> \<le> 1 / 200" by (simp only: d)
  from nearest_is_round2 [OF this assms(4)] show ?thesis by (simp only: d)
qed

subsection \<open>Two percentages, evaluated\<close>

lemma double_percent_eval:
  assumes "(of_nat a :: rat) / of_nat t = x"
    and "fl x = q1" "fl (q1 * 100) = q2" "fl (q2 * 100) = q3"
    and "Math_round q3 = n"
  shows "double_percent a t = of_int n / 100"
  by (simp add: double_percent_def assms)

text \<open>97 of 160 is 60.625 percent; the doubles give 60.62.\<close>

lemma double_percent_97_160: "double_percent 97 160 = 6062 / 100"
proof -
  have x: "(of_nat 97 :: rat) / of_nat 160 = 97 / 160" by simp
  have e1: "fl (97 / 160) = 5460614548186726 / 2 ^ 53"
    by (rule fl_cert [where n = 53 and k = 5460614548186726]; code_simp)
  have e2: "fl (5460614548186726 / 2 ^ 53 * 100) = 8532210231541759 / 2 ^ 47"
    by (rule fl_cert [where n = 47 and k = 8532210231541759]; code_simp)
  have e3: "fl (8532210231541759 / 2 ^ 47 * 100) = 6665789243391999 / 2 ^ 40"
    by (rule fl_cert [where n = 40 and k = 6665789243391999]; code_simp)
  have m: "Math_round (6665789243391999 / 2 ^ 40) = 6062" by code_simp
  from double_percent_eval [OF x e1 e2 e3 m] show ?thesis by simp
qed

text \<open>1 of 32 is 3.125 percent; the doubles give 3.13.\<close>

lemma double_percent_1_32: "double_percent 1 32 = 313 / 100"
proof -
  have x: "(of_nat 1 :: rat) / of_nat 32 = 1 / 32" by simp
  have e1: "fl (1 / 32) = 1 / 32"
    by (rule fl_cert [where n = 57 and k = 4503599627370496]; code_simp)
  have e2: "fl (1 / 32 * 100) = 25 / 8"
    by (rule fl_cert [where n = 51 and k = 7036874417766400]; code_simp)
  have e3: "fl (25 / 8 * 100) = 625 / 2"
    by (rule fl_cert [where n = 44 and k = 5497558138880000]; code_simp)
  have m: "Math_round (625 / 2) = 313" by code_simp
  from double_percent_eval [OF x e1 e2 e3 m] show ?thesis by simp
qed

lemma round2_ties: "round2 (97 / 160 * 100) = 6063 / 100" "round2 (1 / 32 * 100) = 313 / 100"
  by (simp_all add: round2_def round_def)


text \<open>5 of 6 is 83.33... percent.\<close>

lemma double_percent_5_6: "double_percent 5 6 = 8333 / 100"
proof -
  have x: "(of_nat 5 :: rat) / of_nat 6 = 5 / 6" by simp
  have e1: "fl (5 / 6) = 7505999378950827 / 2 ^ 53"
    by (rule fl_cert [where n = 53 and k = 7505999378950827]; code_simp)
  have e2: "fl (7505999378950827 / 2 ^ 53 * 100) = 5864062014805334 / 2 ^ 46"
    by (rule fl_cert [where n = 46 and k = 5864062014805334]; code_simp)
  have e3: "fl (5864062014805334 / 2 ^ 46 * 100) = 4581298449066667 / 2 ^ 39"
    by (rule fl_cert [where n = 39 and k = 4581298449066667]; code_simp)
  have m: "Math_round (4581298449066667 / 2 ^ 39) = 8333" by code_simp
  from double_percent_eval [OF x e1 e2 e3 m] show ?thesis by simp
qed

text \<open>All checks up or degraded: exactly 100.\<close>

lemma double_percent_all: "0 < n \<Longrightarrow> double_percent n n = 100"
proof -
  assume "0 < n"
  then have x: "(of_nat n :: rat) / of_nat n = 1" by simp
  have e1: "fl 1 = 1"
    by (rule fl_cert [where n = 52 and k = 4503599627370496]; code_simp)
  have e2: "fl (1 * 100) = 100"
    by (rule fl_cert [where n = 46 and k = 7036874417766400]; code_simp)
  have e3: "fl (100 * 100) = 10000"
    by (rule fl_cert [where n = 39 and k = 5497558138880000]; code_simp)
  have m: "Math_round 10000 = 10000" by code_simp
  from double_percent_eval [OF x e1 e2 e3 m] show ?thesis by simp
qed


section \<open>Properties of the daily aggregator\<close>

subsection \<open>Counters and uptime\<close>

lemma updateSummary_counts:
  "totalChecks (updateSummary cs i r s) = totalChecks s + 1"
  "upChecks (updateSummary cs i r s) = upChecks s + (if status r = Up then 1 else 0)"
  "degradedChecks (updateSummary cs i r s) = degradedChecks s + (if status r = Degraded then 1 else 0)"
  "downChecks (updateSummary cs i r s) = downChecks s + (if status r = Down then 1 else 0)"
  by (cases "status r"; simp add: updateSummary_def Let_def)+

lemma updateSummary_uptime:
  "uptimePercent (updateSummary cs i r s)
     = double_percent
         (upChecks (updateSummary cs i r s) + degradedChecks (updateSummary cs i r s))
         (totalChecks (updateSummary cs i r s))"
  by (cases "status r"; simp add: updateSummary_def Let_def double_percent_def)

lemma updateSummary_ok:
  assumes "summary_ok s"
  shows "summary_ok (updateSummary cs i r s)"
proof -
  let ?s = "updateSummary cs i r s"
  have sum: "upChecks ?s + degradedChecks ?s + downChecks ?s = totalChecks ?s"
    using assms by (cases "status r") (simp_all add: updateSummary_counts summary_ok_def)
  have pos: "0 < totalChecks ?s" by (simp add: updateSummary_counts)
  have le: "upChecks ?s + degradedChecks ?s \<le> totalChecks ?s" using sum by linarith
  from double_percent_bounds [OF le pos]
  have "0 \<le> uptimePercent ?s \<and> uptimePercent ?s \<le> 100"
    by (simp only: updateSummary_uptime [of cs i r s])
  with sum show ?thesis by (simp add: summary_ok_def)
qed

lemma initSummary_ok: "summary_ok initSummary"
  by (simp add: summary_ok_def initSummary_def)

lemma summary_ok_nearest:
  assumes "summary_ok s" "0 < totalChecks s" "totalChecks s < 10 ^ 11"
    and "uptimePercent s = double_percent (upChecks s + degradedChecks s) (totalChecks s)"
  shows "\<bar>uptimePercent s - exact_percent s\<bar> \<le> 1 / 200"
    and "\<not> half_way (exact_percent s) \<Longrightarrow> uptime_formula s"
proof -
  from assms(1) have le: "upChecks s + degradedChecks s \<le> totalChecks s"
    by (simp add: summary_ok_def)
  from double_percent_nearest [OF le assms(2) assms(3)]
  show "\<bar>uptimePercent s - exact_percent s\<bar> \<le> 1 / 200"
    by (simp only: assms(4) exact_percent_def)
  assume "\<not> half_way (exact_percent s)"
  then have "\<not> half_way (of_nat (upChecks s + degradedChecks s) / of_nat (totalChecks s) * 100)"
    by (simp add: exact_percent_def)
  from double_percent_round2 [OF le assms(2) assms(3) this]
  show "uptime_formula s" by (simp only: uptime_formula_def assms(4) exact_percent_def)
qed

subsection \<open>The loop over the results of an entry\<close>

lemma map_of_summaryStep:
  "map_of (summaryStep cs (i, r) sm) j
     = (if j = i \<and> summarised sm i then Some (updateSummary cs i r (entryOr sm i))
        else map_of sm j)"
  by (auto simp: summaryStep_def summarised_def entryOr_def update_conv' split: option.splits)

lemma set_update_subset:
  "snd ` set (AList.update k v al) \<subseteq> insert v (snd ` set al)"
  by (induction al) auto

lemma entryOr_ok:
  assumes "\<forall>s \<in> snd ` set sm. summary_ok s"
  shows "summary_ok (entryOr sm i)"
proof (cases "map_of sm i")
  case None then show ?thesis by (simp add: entryOr_def initSummary_ok)
next
  case (Some s)
  then have "(i, s) \<in> set sm" by (rule map_of_SomeD)
  then have "s \<in> snd ` set sm" by force
  with assms Some show ?thesis by (auto simp: entryOr_def)
qed

lemma summaryStep_all_ok:
  assumes "\<forall>s \<in> snd ` set sm. summary_ok s"
  shows "\<forall>s \<in> snd ` set (summaryStep cs ir sm). summary_ok s"
proof -
  obtain i r where ir: "ir = (i, r)" by (cases ir)
  from entryOr_ok [OF assms]
  have v: "summary_ok (updateSummary cs i r (entryOr sm i))" by (rule updateSummary_ok)
  have sub: "snd ` set (summaryStep cs ir sm)
               \<subseteq> insert (updateSummary cs i r (entryOr sm i)) (snd ` set sm)"
    using set_update_subset [of i "updateSummary cs i r (entryOr sm i)" sm] ir
    by (auto simp: summaryStep_def entryOr_def split: option.splits)
  show ?thesis
  proof
    fix s assume "s \<in> snd ` set (summaryStep cs ir sm)"
    with sub have "s = updateSummary cs i r (entryOr sm i) \<or> s \<in> snd ` set sm" by blast
    with v assms show "summary_ok s" by blast
  qed
qed

lemma fold_summaryStep_all_ok:
  "\<forall>s \<in> snd ` set sm. summary_ok s \<Longrightarrow>
   \<forall>s \<in> snd ` set (fold (summaryStep cs) rs sm). summary_ok s"
proof (induction rs arbitrary: sm)
  case Nil then show ?case by simp
next
  case (Cons x rs)
  from summaryStep_all_ok [OF Cons.prems] have "\<forall>s \<in> snd ` set (summaryStep cs x sm). summary_ok s" .
  from Cons.IH [OF this] show ?case by simp
qed

lemma fold_summaryStep_other:
  "i \<notin> fst ` set rs \<Longrightarrow> map_of (fold (summaryStep cs) rs sm) i = map_of sm i"
proof (induction rs arbitrary: sm)
  case Nil then show ?case by simp
next
  case (Cons x rs)
  obtain k r where x: "x = (k, r)" by (cases x)
  with Cons.prems have "i \<noteq> k" "i \<notin> fst ` set rs" by auto
  with Cons.IH [of "summaryStep cs x sm"] x show ?case by (simp add: map_of_summaryStep)
qed

lemma summarised_step: "summarised sm i \<Longrightarrow> summarised (summaryStep cs x sm) i"
  by (cases x) (auto simp: summarised_def map_of_summaryStep)

text \<open>
  The summary of an id of the entry, when the id is summarised, is the one the body of
  the loop wrote last.
\<close>

lemma fold_summaryStep_last:
  "i \<in> fst ` set rs \<Longrightarrow> summarised sm i \<Longrightarrow>
   \<exists>r s0. map_of (fold (summaryStep cs) rs sm) i = Some (updateSummary cs i r s0)"
proof (induction rs arbitrary: sm)
  case Nil then show ?case by simp
next
  case (Cons x rs)
  obtain k r where x: "x = (k, r)" by (cases x)
  show ?case
  proof (cases "i \<in> fst ` set rs")
    case True
    from Cons.IH [OF True summarised_step [OF Cons.prems(2)], of cs x] show ?thesis by simp
  next
    case False
    with Cons.prems x have ik: "i = k" by auto
    from fold_summaryStep_other [OF False, of cs "summaryStep cs x sm"]
    have "map_of (fold (summaryStep cs) (x # rs) sm) i = map_of (summaryStep cs x sm) i" by simp
    also have "\<dots> = Some (updateSummary cs i r (entryOr sm i))"
      using x ik Cons.prems(2) by (simp add: map_of_summaryStep)
    finally show ?thesis by blast
  qed
qed

text \<open>An id that is not summarised has no summary after the loop either.\<close>

lemma fold_unsummarised:
  "\<not> summarised sm i \<Longrightarrow> map_of (fold (summaryStep cs) rs sm) i = None"
proof (induction rs arbitrary: sm)
  case Nil then show ?case by (simp add: summarised_def)
next
  case (Cons x rs)
  obtain k r where x: "x = (k, r)" by (cases x)
  from Cons.prems x have "\<not> summarised (summaryStep cs x sm) i"
    by (auto simp: summarised_def map_of_summaryStep)
  from Cons.IH [OF this] show ?case by simp
qed

lemma fold_summaryStep_uptime:
  assumes "i \<in> fst ` set rs" "summarised sm i"
  shows "\<exists>s. map_of (fold (summaryStep cs) rs sm) i = Some s \<and> 0 < totalChecks s
           \<and> uptimePercent s = double_percent (upChecks s + degradedChecks s) (totalChecks s)"
proof -
  from fold_summaryStep_last [OF assms]
  obtain r s0 where "map_of (fold (summaryStep cs) rs sm) i = Some (updateSummary cs i r s0)"
    by blast
  moreover have "0 < totalChecks (updateSummary cs i r s0)" by (simp add: updateSummary_counts)
  ultimately show ?thesis using updateSummary_uptime [of cs i r s0] by blast
qed

subsection \<open>Latency statistics\<close>

lemma allResponseTimes_eq: "allResponseTimes cs i = positive_samples cs i"
  by (induction cs) (auto simp: allResponseTimes_def positive_samples_def split: option.splits)

lemma p95Index_range:
  assumes "0 < n"
  shows "0 \<le> p95Index n" "nat (max 0 (p95Index n)) < n"
proof -
  have pos: "(0::rat) < of_nat n * (95 / 100)" using assms by simp
  then have "0 < \<lceil>(of_nat n :: rat) * (95 / 100)\<rceil>" by (simp only: ceiling_less_iff less_ceiling_iff of_int_0)
  then show a: "0 \<le> p95Index n" by (simp add: p95Index_def)
  have "(of_nat n :: rat) * (95 / 100) \<le> of_int (int n)" by simp
  then have "\<lceil>(of_nat n :: rat) * (95 / 100)\<rceil> \<le> int n" by (simp only: ceiling_le_iff)
  then have "p95Index n < int n" by (simp add: p95Index_def)
  with a show "nat (max 0 (p95Index n)) < n" by simp
qed

lemma updateSummary_latency_some:
  assumes "allResponseTimes cs i \<noteq> []"
  shows "avgResponseTime (updateSummary cs i r s) = mean_rounded (allResponseTimes cs i)"
    and "p95ResponseTime (updateSummary cs i r s) = percentile95 (allResponseTimes cs i)"
  using assms
  by (cases "status r"; simp add: updateSummary_def Let_def mean_rounded_def percentile95_def
        Math_round_def round_def p95Index_def mult.commute)+

lemma updateSummary_latency_none:
  assumes "allResponseTimes cs i = []"
  shows "avgResponseTime (updateSummary cs i r s) = avgResponseTime s"
    and "p95ResponseTime (updateSummary cs i r s) = p95ResponseTime s"
  using assms by (cases "status r"; simp add: updateSummary_def Let_def)+

lemma fold_summaryStep_latency_some:
  assumes "i \<in> fst ` set rs" "summarised sm i" "allResponseTimes cs i \<noteq> []"
  shows "\<exists>s. map_of (fold (summaryStep cs) rs sm) i = Some s
       \<and> avgResponseTime s = mean_rounded (allResponseTimes cs i)
       \<and> p95ResponseTime s = percentile95 (allResponseTimes cs i)"
proof -
  from fold_summaryStep_last [OF assms(1,2)]
  obtain r s0 where "map_of (fold (summaryStep cs) rs sm) i = Some (updateSummary cs i r s0)"
    by blast
  with updateSummary_latency_some [OF assms(3), of r s0] show ?thesis by simp
qed

lemma fold_summaryStep_latency_none:
  "allResponseTimes cs i = [] \<Longrightarrow>
   avgResponseTime (entryOr (fold (summaryStep cs) rs sm) i) = avgResponseTime (entryOr sm i)
   \<and> p95ResponseTime (entryOr (fold (summaryStep cs) rs sm) i) = p95ResponseTime (entryOr sm i)"
proof (induction rs arbitrary: sm)
  case Nil then show ?case by simp
next
  case (Cons x rs)
  obtain k r where x: "x = (k, r)" by (cases x)
  have step: "avgResponseTime (entryOr (summaryStep cs x sm) i) = avgResponseTime (entryOr sm i)
     \<and> p95ResponseTime (entryOr (summaryStep cs x sm) i) = p95ResponseTime (entryOr sm i)"
  proof (cases "i = k \<and> summarised sm i")
    case True
    with x have m: "map_of (summaryStep cs x sm) i = Some (updateSummary cs i r (entryOr sm i))"
      by (auto simp: map_of_summaryStep)
    have "entryOr (summaryStep cs x sm) i = updateSummary cs i r (entryOr sm i)"
      by (simp only: entryOr_def [of "summaryStep cs x sm" i] m option.case)
    with updateSummary_latency_none [OF Cons.prems, of r "entryOr sm i"] show ?thesis
      by simp
  next
    case False
    with x have "map_of (summaryStep cs x sm) i = map_of sm i"
      by (auto simp: map_of_summaryStep)
    then show ?thesis by (simp add: entryOr_def)
  qed
  from Cons.IH [OF Cons.prems, of "summaryStep cs x sm"] step show ?case by simp
qed

lemma mean_rounded_nearest:
  "\<bar>of_int (mean_rounded ts) - (of_int (sum_list ts) :: rat) / of_nat (length ts)\<bar> \<le> 1 / 2"
  unfolding mean_rounded_def by (rule of_int_round_abs_le)

lemma percentile95_index:
  "ts \<noteq> [] \<Longrightarrow> nat (max 0 (\<lceil>(95 / 100 :: rat) * of_nat (length ts)\<rceil> - 1)) < length ts"
  using p95Index_range(2) [of "length ts"] by (simp add: p95Index_def mult.commute)

text \<open>The summary the body of the loop writes, field by field.\<close>

lemma updateSummary_eval:
  assumes "allResponseTimes cs i = ts" "ts \<noteq> []"
  shows "updateSummary cs i r s
     = \<lparr>totalChecks = totalChecks s + 1,
        upChecks = upChecks s + (if status r = Up then 1 else 0),
        degradedChecks = degradedChecks s + (if status r = Degraded then 1 else 0),
        downChecks = downChecks s + (if status r = Down then 1 else 0),
        uptimePercent =
          double_percent
            (upChecks s + (if status r = Up then 1 else 0)
               + (degradedChecks s + (if status r = Degraded then 1 else 0)))
            (totalChecks s + 1),
        avgResponseTime = mean_rounded ts, p95ResponseTime = percentile95 ts\<rparr>"
proof -
  from assms have ne: "allResponseTimes cs i \<noteq> []" by simp
  show ?thesis
    by (rule daySummary.equality)
       (simp_all add: updateSummary_counts updateSummary_uptime
          updateSummary_latency_some [OF ne] assms(1))
qed

subsection \<open>Reading and writing the record of the day\<close>

lemma updateDailyFile_Inr:
  assumes "updateDailyFile today e fs = Inr fs'"
  shows "\<exists>files. fs = Some files \<and> todaysRecord today fs \<noteq> Some Unparsable
     \<and> todaysRecord today fs'
         = Some (Doc (aggregate (case todaysRecord today fs of
                                   Some (Doc d) \<Rightarrow> d
                                 | _ \<Rightarrow> \<lparr>date = toISODate today, checks = [], summary = []\<rparr>) e))"
  using assms
  by (auto simp: updateDailyFile_def todaysRecord_def Let_def update_conv'
      split: option.splits stored.splits)

lemma updateDailyFile_corrupt:
  "todaysRecord today fs = Some Unparsable \<Longrightarrow> updateDailyFile today e fs = Inl SyntaxError"
  by (cases fs) (simp_all add: todaysRecord_def updateDailyFile_def Let_def)

lemma updateDailyFile_fresh:
  "todaysRecord today (Some files) = None \<Longrightarrow>
   updateDailyFile today e (Some files)
     = Inr (Some (AList.update (fileName today)
         (Doc (aggregate \<lparr>date = toISODate today, checks = [], summary = []\<rparr> e)) files))"
  by (simp add: todaysRecord_def updateDailyFile_def Let_def)

lemma updateDailyFile_present:
  "map_of files (fileName today) = Some (Doc d) \<Longrightarrow>
   updateDailyFile today e (Some files)
     = Inr (Some (AList.update (fileName today) (Doc (aggregate d e)) files))"
  by (simp add: updateDailyFile_def Let_def)

lemma main_failed:
  "updateDailyFile today (fst (runAllChecks (buildChecks cfg) ts net)) (Some files) = Inl err \<Longrightarrow>
   main cfg today ts net (Some files)
     = \<lparr>run_exit = Failed err, run_fetched = snd (runAllChecks (buildChecks cfg) ts net),
        run_fs = Some files\<rparr>"
  by (simp add: main_def Let_def)

lemma fileName_today0: "fileName today0 = ''2024-04-10.json''"
  by code_simp


subsection \<open>The record written by an update\<close>

text \<open>
  The record an update writes: the one read for the day, or an empty one, with the entry
  appended and the loop run over its results.
\<close>

lemma updated_record:
  assumes "updateDailyFile today e fs = Inr fs'"
  shows "\<exists>d0. todaysRecord today fs' = Some (Doc (aggregate d0 e))
           \<and> checks d0 = priorChecks today fs \<and> summary d0 = priorSummaries today fs"
proof -
  let ?d0 = "case todaysRecord today fs of
               Some (Doc d) \<Rightarrow> d
             | _ \<Rightarrow> \<lparr>date = toISODate today, checks = [], summary = []\<rparr>"
  from updateDailyFile_Inr [OF assms]
  have "todaysRecord today fs' = Some (Doc (aggregate ?d0 e))" by blast
  moreover have "checks ?d0 = priorChecks today fs"
    by (simp add: priorChecks_def split: option.splits stored.splits)
  moreover have "summary ?d0 = priorSummaries today fs"
    by (simp add: priorSummaries_def split: option.splits stored.splits)
  ultimately show ?thesis by blast
qed

lemma aggregate_fields:
  "checks (aggregate d e) = checks d @ [e]"
  "summary (aggregate d e) = fold (summaryStep (checks d @ [e])) (results e) (summary d)"
  "date (aggregate d e) = date d"
  by (simp_all add: aggregate_def Let_def)

text \<open>
  C5, as the code has it. Every update of the record of the day keeps, for every summary
  in it, \<open>upChecks + degradedChecks + downChecks = totalChecks\<close> and
  \<open>0 \<le> uptimePercent \<le> 100\<close>, provided the summaries read from the file had them
  (a record created by the update has no summary to start with). After the update,
  every probe id of the entry that is summarised (it had a summary, or is not the name
  of an inherited member) has a summary with at least one check whose \<open>uptimePercent\<close>
  is the percentage the script computes in double arithmetic from the counters. With
  fewer than \<open>10^11\<close> checks that value is within \<open>0.005\<close> of the exact percentage
  \<open>(upChecks + degradedChecks) / totalChecks * 100\<close>, and it is \<open>round2\<close> of the
  exact percentage unless that lies half way between two numbers with two decimals,
  where the value written can be either of the two.
\<close>

theorem aggregator_keeps_invariant:
  assumes "updateDailyFile today e fs = Inr fs'"
    and "list_all summary_ok (map snd (priorSummaries today fs))"
  shows "\<exists>d'. todaysRecord today fs' = Some (Doc d')
           \<and> list_all summary_ok (map snd (summary d'))
           \<and> (\<forall>i \<in> fst ` set (results e). summarised (priorSummaries today fs) i \<longrightarrow>
                 (\<exists>s. map_of (summary d') i = Some s \<and> 0 < totalChecks s
                    \<and> uptimePercent s
                        = double_percent (upChecks s + degradedChecks s) (totalChecks s)
                    \<and> (totalChecks s < 10 ^ 11 \<longrightarrow>
            \<bar>uptimePercent s - exact_percent s\<bar> \<le> 1 / 200
            \<and> (\<not> half_way (exact_percent s) \<longrightarrow> uptime_formula s))))"
proof -
  from updated_record [OF assms(1)]
  obtain d0 where rec: "todaysRecord today fs' = Some (Doc (aggregate d0 e))"
    and prior: "summary d0 = priorSummaries today fs"
    by blast
  let ?cs = "checks d0 @ [e]"
  let ?sm = "fold (summaryStep ?cs) (results e) (summary d0)"
  have sm: "summary (aggregate d0 e) = ?sm" by (rule aggregate_fields(2))
  from assms(2) prior have ok0: "\<forall>s \<in> snd ` set (summary d0). summary_ok s"
    by (simp add: list_all_iff)
  from fold_summaryStep_all_ok [OF ok0, of ?cs "results e"]
  have all: "\<forall>s \<in> snd ` set ?sm. summary_ok s" .
  then have a: "list_all summary_ok (map snd (summary (aggregate d0 e)))"
    by (simp only: sm list_all_iff set_map)
  have b: "\<forall>i \<in> fst ` set (results e). summarised (priorSummaries today fs) i \<longrightarrow>
             (\<exists>s. map_of (summary (aggregate d0 e)) i = Some s \<and> 0 < totalChecks s
                \<and> uptimePercent s
                    = double_percent (upChecks s + degradedChecks s) (totalChecks s)
                \<and> (totalChecks s < 10 ^ 11 \<longrightarrow>
            \<bar>uptimePercent s - exact_percent s\<bar> \<le> 1 / 200
            \<and> (\<not> half_way (exact_percent s) \<longrightarrow> uptime_formula s)))"
  proof (intro ballI impI)
    fix i
    assume i: "i \<in> fst ` set (results e)" and "summarised (priorSummaries today fs) i"
    then have "summarised (summary d0) i" by (simp only: prior)
    from fold_summaryStep_uptime [OF i this, of ?cs]
    obtain s where s: "map_of ?sm i = Some s" "0 < totalChecks s"
      "uptimePercent s = double_percent (upChecks s + degradedChecks s) (totalChecks s)"
      by blast
    from s(1) have "(i, s) \<in> set ?sm" by (rule map_of_SomeD)
    then have "s \<in> snd ` set ?sm" by force
    with all have ok: "summary_ok s" by blast
    have near: "totalChecks s < 10 ^ 11 \<longrightarrow>
            \<bar>uptimePercent s - exact_percent s\<bar> \<le> 1 / 200
            \<and> (\<not> half_way (exact_percent s) \<longrightarrow> uptime_formula s)"
    proof (intro impI conjI)
      assume lt: "totalChecks s < 10 ^ 11"
      from summary_ok_nearest(1) [OF ok s(2) lt s(3)]
      show "\<bar>uptimePercent s - exact_percent s\<bar> \<le> 1 / 200" .
      assume "\<not> half_way (exact_percent s)"
      with summary_ok_nearest(2) [OF ok s(2) lt s(3)] show "uptime_formula s" .
    qed
    from s(1) have m: "map_of (summary (aggregate d0 e)) i = Some s" by (simp only: sm)
    from m s(2) s(3) near
    have "map_of (summary (aggregate d0 e)) i = Some s \<and> 0 < totalChecks s
        \<and> uptimePercent s = double_percent (upChecks s + degradedChecks s) (totalChecks s)
        \<and> (totalChecks s < 10 ^ 11 \<longrightarrow>
            \<bar>uptimePercent s - exact_percent s\<bar> \<le> 1 / 200
            \<and> (\<not> half_way (exact_percent s) \<longrightarrow> uptime_formula s))"
      by (intro conjI)
    then show "\<exists>s. map_of (summary (aggregate d0 e)) i = Some s \<and> 0 < totalChecks s
        \<and> uptimePercent s = double_percent (upChecks s + degradedChecks s) (totalChecks s)
        \<and> (totalChecks s < 10 ^ 11 \<longrightarrow>
            \<bar>uptimePercent s - exact_percent s\<bar> \<le> 1 / 200
            \<and> (\<not> half_way (exact_percent s) \<longrightarrow> uptime_formula s))"
      by (rule exI)
  qed
  show ?thesis
  proof (intro exI conjI)
    show "todaysRecord today fs' = Some (Doc (aggregate d0 e))" by (rule rec)
    show "list_all summary_ok (map snd (summary (aggregate d0 e)))" by (rule a)
    show "\<forall>i \<in> fst ` set (results e). summarised (priorSummaries today fs) i \<longrightarrow>
             (\<exists>s. map_of (summary (aggregate d0 e)) i = Some s \<and> 0 < totalChecks s
                \<and> uptimePercent s
                    = double_percent (upChecks s + degradedChecks s) (totalChecks s)
                \<and> (totalChecks s < 10 ^ 11 \<longrightarrow>
            \<bar>uptimePercent s - exact_percent s\<bar> \<le> 1 / 200
            \<and> (\<not> half_way (exact_percent s) \<longrightarrow> uptime_formula s)))"
      by (rule b)
  qed
qed

lemma aggregate_record5: "aggregate record5 entry_mixed = record6"
proof -
  define cs where "cs = checks record5 @ [entry_mixed]"
  have t1: "allResponseTimes cs ''api'' = [100, 120, 110, 500, 105, 10001]"
    unfolding cs_def by code_simp
  have t2: "allResponseTimes cs ''db'' = [6000]"
    unfolding cs_def by code_simp
  have m1: "mean_rounded [100, 120, 110, 500, 105, 10001] = 1823" by code_simp
  have p1: "percentile95 [100, 120, 110, 500, 105, 10001] = 10001" by code_simp
  have m2: "mean_rounded [6000] = 6000" by code_simp
  have p2: "percentile95 [6000] = 6000" by code_simp
  have u2: "double_percent (Suc 0) (Suc 0) = 100" by (rule double_percent_all) simp
  have db: "''db'' \<notin> set objectPrototypeNames" by (simp add: objectPrototypeNames_def)
  have "fold (summaryStep cs) (results entry_mixed) (summary record5) = summary record6"
    by (simp add: entry_mixed_def record5_def record6_def summaryStep_def db initSummary_def
          updateSummary_eval [OF t1] updateSummary_eval [OF t2] m1 p1 m2 p2
          double_percent_5_6 u2)
  then show ?thesis
    by (simp add: aggregate_def Let_def cs_def record6_def record5_def)
qed

text \<open>
  A sixth entry, with the probe \<open>api\<close> down and a new probe \<open>db\<close> degraded, on a record
  of five entries: 5 of 6 is \<open>83.33\<close> percent for \<open>api\<close>, 1 of 1 is \<open>100\<close> for \<open>db\<close>.
\<close>

theorem aggregator_keeps_invariant_witness:
  "updateDailyFile today0 entry_mixed (Some [(''2024-04-10.json'', Doc record5)])
     = Inr (Some [(''2024-04-10.json'', Doc record6)])
   \<and> list_all summary_ok
        (map snd (priorSummaries today0 (Some [(''2024-04-10.json'', Doc record5)])))
   \<and> summarised (priorSummaries today0 (Some [(''2024-04-10.json'', Doc record5)])) ''db''
   \<and> (\<exists>d'. todaysRecord today0 (Some [(''2024-04-10.json'', Doc record6)]) = Some (Doc d')
           \<and> list_all summary_ok (map snd (summary d'))
           \<and> map_of (summary d') ''api''
               = Some \<lparr>totalChecks = 6, upChecks = 5, degradedChecks = 0, downChecks = 1,
                   uptimePercent = 8333 / 100, avgResponseTime = 1823, p95ResponseTime = 10001\<rparr>
           \<and> map_of (summary d') ''db''
               = Some \<lparr>totalChecks = 1, upChecks = 0, degradedChecks = 1, downChecks = 0,
                   uptimePercent = 100, avgResponseTime = 6000, p95ResponseTime = 6000\<rparr>)"
proof -
  have h1: "updateDailyFile today0 entry_mixed (Some [(''2024-04-10.json'', Doc record5)])
              = Inr (Some [(''2024-04-10.json'', Doc record6)])"
    using updateDailyFile_present [of "[(''2024-04-10.json'', Doc record5)]" today0 record5 entry_mixed]
    by (simp add: fileName_today0 aggregate_record5)
  have h2: "list_all summary_ok
              (map snd (priorSummaries today0 (Some [(''2024-04-10.json'', Doc record5)])))"
    by code_simp
  have h3: "summarised (priorSummaries today0 (Some [(''2024-04-10.json'', Doc record5)])) ''db''"
    by (simp add: summarised_def objectPrototypeNames_def)
  have r: "todaysRecord today0 (Some [(''2024-04-10.json'', Doc record6)]) = Some (Doc record6)"
    by code_simp
  have m: "map_of (summary record6) ''api''
             = Some \<lparr>totalChecks = 6, upChecks = 5, degradedChecks = 0, downChecks = 1,
                 uptimePercent = 8333 / 100, avgResponseTime = 1823, p95ResponseTime = 10001\<rparr>"
    "map_of (summary record6) ''db''
             = Some \<lparr>totalChecks = 1, upChecks = 0, degradedChecks = 1, downChecks = 0,
                 uptimePercent = 100, avgResponseTime = 6000, p95ResponseTime = 6000\<rparr>"
    by code_simp+
  from aggregator_keeps_invariant [OF h1 h2] r m h1 h2 h3 show ?thesis by auto
qed

lemma aggregate_record159: "aggregate record159 entry160 = record160"
proof -
  define cs where "cs = checks record159 @ [entry160]"
  have t: "allResponseTimes cs ''api''
             = replicate 96 100 @ replicate 63 10001 @ [100]"
    unfolding cs_def by code_simp
  have m: "mean_rounded (replicate 96 100 @ replicate 63 10001 @ [100]) = 3999" by code_simp
  have p: "percentile95 (replicate 96 100 @ replicate 63 10001 @ [100]) = 10001" by code_simp
  have ne: "replicate 96 (100::int) @ replicate 63 10001 @ [100] \<noteq> []" by simp
  have "fold (summaryStep cs) (results entry160) (summary record159) = summary record160"
    by (simp add: entry160_def apiEntry_def record159_def record160_def summaryStep_def
          updateSummary_eval [OF t ne] m p double_percent_97_160)
  then show ?thesis
    by (simp add: aggregate_def Let_def cs_def record160_def record159_def)
qed

text \<open>
  C5 as stated fails. On a record of 159 entries for the probe \<open>api\<close>, 96 of them up
  and 63 down, one more entry that is up makes 97 of 160: exactly \<open>60.625\<close> percent,
  which rounded to two decimals, a half going up, is \<open>60.63\<close>. The update writes
  \<open>60.62\<close>: the double nearest to \<open>97 / 160 * 100 * 100\<close> is below \<open>6062.5\<close>.
\<close>

theorem uptime_tie_rounded_down:
  "updateDailyFile today0 entry160 (Some [(''2024-04-10.json'', Doc record159)])
     = Inr (Some [(''2024-04-10.json'', Doc record160)])
   \<and> map_of (summary record160) ''api''
       = Some \<lparr>totalChecks = 160, upChecks = 97, degradedChecks = 0, downChecks = 63,
           uptimePercent = 6062 / 100, avgResponseTime = 3999, p95ResponseTime = 10001\<rparr>
   \<and> round2 (of_nat (97 + 0) / of_nat 160 * 100) = 6063 / 100
   \<and> \<not> uptime_formula \<lparr>totalChecks = 160, upChecks = 97, degradedChecks = 0, downChecks = 63,
           uptimePercent = 6062 / 100, avgResponseTime = 3999, p95ResponseTime = 10001\<rparr>"
proof -
  have h1: "updateDailyFile today0 entry160 (Some [(''2024-04-10.json'', Doc record159)])
              = Inr (Some [(''2024-04-10.json'', Doc record160)])"
    using updateDailyFile_present [of "[(''2024-04-10.json'', Doc record159)]" today0 record159 entry160]
    by (simp add: fileName_today0 aggregate_record159)
  have h2: "map_of (summary record160) ''api''
       = Some \<lparr>totalChecks = 160, upChecks = 97, degradedChecks = 0, downChecks = 63,
           uptimePercent = 6062 / 100, avgResponseTime = 3999, p95ResponseTime = 10001\<rparr>"
    by (simp add: record160_def)
  have h3: "round2 (of_nat (97 + 0) / of_nat 160 * 100) = 6063 / 100"
    using round2_ties(1) by simp
  have h4: "\<not> uptime_formula \<lparr>totalChecks = 160, upChecks = 97, degradedChecks = 0, downChecks = 63,
           uptimePercent = 6062 / 100, avgResponseTime = 3999, p95ResponseTime = 10001\<rparr>"
    using round2_ties(1) by (simp add: uptime_formula_def exact_percent_def)
  from h1 h2 h3 h4 show ?thesis by blast
qed

subsection \<open>Latency statistics of an update\<close>

text \<open>
  After an update the record holds the entries it held before followed by the new one.
  For every probe id of the entry that is summarised: with the response times recorded
  today for the id that are present and strictly positive, \<open>n\<close> of them, the summary's
  average is their arithmetic mean rounded to the nearest integer and its 95th
  percentile is the element at index \<open>ceil(0.95 * n) - 1\<close> (not below 0) of the samples
  sorted ascending; with no such sample both fields keep the value they had (0 for a
  summary created by the update). An id that is not summarised has no summary after
  the update.
\<close>

lemma latency_statistics:
  assumes "updateDailyFile today e fs = Inr fs'"
    and "i \<in> fst ` set (results e)"
  shows "\<exists>d'. todaysRecord today fs' = Some (Doc d')
           \<and> checks d' = priorChecks today fs @ [e]
           \<and> (if summarised (priorSummaries today fs) i
               then \<exists>s. map_of (summary d') i = Some s
                      \<and> (if positive_samples (checks d') i \<noteq> []
                          then avgResponseTime s = mean_rounded (positive_samples (checks d') i)
                               \<and> p95ResponseTime s = percentile95 (positive_samples (checks d') i)
                          else avgResponseTime s = avgResponseTime (priorSummary today fs i)
                               \<and> p95ResponseTime s = p95ResponseTime (priorSummary today fs i))
               else map_of (summary d') i = None)"
proof -
  from updated_record [OF assms(1)]
  obtain d0 where rec: "todaysRecord today fs' = Some (Doc (aggregate d0 e))"
    and pc: "checks d0 = priorChecks today fs"
    and prior: "summary d0 = priorSummaries today fs"
    by blast
  let ?d = "aggregate d0 e"
  let ?sm0 = "priorSummaries today fs"
  have cs: "checks ?d = priorChecks today fs @ [e]" by (simp add: aggregate_fields pc)
  have sm: "summary ?d = fold (summaryStep (checks ?d)) (results e) ?sm0"
    by (simp add: aggregate_fields prior)
  have body: "if summarised ?sm0 i
        then \<exists>s. map_of (summary ?d) i = Some s
               \<and> (if positive_samples (checks ?d) i \<noteq> []
                   then avgResponseTime s = mean_rounded (positive_samples (checks ?d) i)
                        \<and> p95ResponseTime s = percentile95 (positive_samples (checks ?d) i)
                   else avgResponseTime s = avgResponseTime (priorSummary today fs i)
                        \<and> p95ResponseTime s = p95ResponseTime (priorSummary today fs i))
        else map_of (summary ?d) i = None"
  proof (cases "summarised ?sm0 i")
    case False
    from fold_unsummarised [OF False, of "checks ?d" "results e"]
    have "map_of (summary ?d) i = None" by (simp only: sm [symmetric])
    with False show ?thesis by simp
  next
    case True
    from fold_summaryStep_last [OF assms(2) True, of "checks ?d"]
    obtain s where s: "map_of (summary ?d) i = Some s" by (simp only: sm [symmetric]) blast
    have "if positive_samples (checks ?d) i \<noteq> []
          then avgResponseTime s = mean_rounded (positive_samples (checks ?d) i)
               \<and> p95ResponseTime s = percentile95 (positive_samples (checks ?d) i)
          else avgResponseTime s = avgResponseTime (priorSummary today fs i)
               \<and> p95ResponseTime s = p95ResponseTime (priorSummary today fs i)"
    proof (cases "positive_samples (checks ?d) i = []")
      case True
      then have "allResponseTimes (checks ?d) i = []" by (simp add: allResponseTimes_eq)
      from fold_summaryStep_latency_none [OF this, of "results e" ?sm0]
      have "avgResponseTime (entryOr (summary ?d) i) = avgResponseTime (priorSummary today fs i)
          \<and> p95ResponseTime (entryOr (summary ?d) i) = p95ResponseTime (priorSummary today fs i)"
        by (simp only: sm [symmetric] priorSummary_def)
      moreover have "entryOr (summary ?d) i = s"
        by (simp only: entryOr_def [of "summary ?d" i] s option.case)
      ultimately show ?thesis using True by simp
    next
      case False
      then have ne: "allResponseTimes (checks ?d) i \<noteq> []" by (simp add: allResponseTimes_eq)
      from fold_summaryStep_latency_some [OF assms(2) \<open>summarised ?sm0 i\<close> ne]
      have "avgResponseTime s = mean_rounded (positive_samples (checks ?d) i)
          \<and> p95ResponseTime s = percentile95 (positive_samples (checks ?d) i)"
        using s by (simp add: sm [symmetric] allResponseTimes_eq)
      with False show ?thesis by simp
    qed
    with s have "\<exists>s. map_of (summary ?d) i = Some s
               \<and> (if positive_samples (checks ?d) i \<noteq> []
                   then avgResponseTime s = mean_rounded (positive_samples (checks ?d) i)
                        \<and> p95ResponseTime s = percentile95 (positive_samples (checks ?d) i)
                   else avgResponseTime s = avgResponseTime (priorSummary today fs i)
                        \<and> p95ResponseTime s = p95ResponseTime (priorSummary today fs i))"
      by blast
    with True show ?thesis by simp
  qed
  show ?thesis
  proof (intro exI conjI)
    show "todaysRecord today fs' = Some (Doc ?d)" by (rule rec)
    show "checks ?d = priorChecks today fs @ [e]" by (rule cs)
    show "if summarised ?sm0 i
        then \<exists>s. map_of (summary ?d) i = Some s
               \<and> (if positive_samples (checks ?d) i \<noteq> []
                   then avgResponseTime s = mean_rounded (positive_samples (checks ?d) i)
                        \<and> p95ResponseTime s = percentile95 (positive_samples (checks ?d) i)
                   else avgResponseTime s = avgResponseTime (priorSummary today fs i)
                        \<and> p95ResponseTime s = p95ResponseTime (priorSummary today fs i))
        else map_of (summary ?d) i = None"
      by (rule body)
  qed
qed

lemma aggregate_record4: "aggregate record4 entry5 = record5"
proof -
  define cs where "cs = checks record4 @ [entry5]"
  have t: "allResponseTimes cs ''api'' = [100, 120, 110, 500, 105]"
    unfolding cs_def by code_simp
  have m: "mean_rounded [100, 120, 110, 500, 105] = 187" by code_simp
  have p: "percentile95 [100, 120, 110, 500, 105] = 500" by code_simp
  have u: "double_percent 5 5 = 100" by (rule double_percent_all) simp
  have "fold (summaryStep cs) (results entry5) (summary record4) = summary record5"
    by (simp add: entry5_def apiEntry_def record4_def record5_def summaryStep_def
          updateSummary_eval [OF t] m p u)
  then show ?thesis
    by (simp add: aggregate_def Let_def cs_def record5_def record4_def entry5_def)
qed

text \<open>
  The fifth entry of a day, for the probe \<open>api\<close>: the samples 100, 120, 110, 500, 105
  give the average 187 and the 95th percentile 500.
\<close>

lemma latency_statistics_example:
  "updateDailyFile today0 entry5 (Some [(''2024-04-10.json'', Doc record4)])
     = Inr (Some [(''2024-04-10.json'', Doc record5)])
   \<and> positive_samples (checks record5) ''api'' = [100, 120, 110, 500, 105]
   \<and> map_option avgResponseTime (map_of (summary record5) ''api'') = Some 187
   \<and> map_option p95ResponseTime (map_of (summary record5) ''api'') = Some 500"
proof -
  have h1: "updateDailyFile today0 entry5 (Some [(''2024-04-10.json'', Doc record4)])
              = Inr (Some [(''2024-04-10.json'', Doc record5)])"
    using updateDailyFile_present [of "[(''2024-04-10.json'', Doc record4)]" today0 record4 entry5]
    by (simp add: fileName_today0 aggregate_record4)
  have p: "positive_samples (checks record5) ''api'' = [100, 120, 110, 500, 105]"
    by code_simp
  have a: "map_option avgResponseTime (map_of (summary record5) ''api'') = Some 187"
    "map_option p95ResponseTime (map_of (summary record5) ''api'') = Some 500"
    by (simp_all add: record5_def)
  from h1 p a show ?thesis by blast
qed

text \<open>
  C4 fails in the code for a probe whose id is the name of a member every object
  inherits. The first run of a day with the one probe \<open>constructor\<close>, which answers in
  120 ms: \<^verbatim>\<open>dailyFile.summary['constructor']\<close> reads the inherited function, which is
  truthy, so no summary is created and the counters and latency fields are written to
  that function. The record that is written holds the entry, whose only positive sample
  for the id is 120, and no summary for the id: there is no average and no 95th
  percentile equal to 120.
\<close>

theorem constructor_gets_no_summary:
  "updateDailyFile today0 constructor_entry (Some [])
     = Inr (Some [(''2024-04-10.json'', Doc constructor_record)])
   \<and> checks constructor_record = [constructor_entry]
   \<and> positive_samples (checks constructor_record) ''constructor'' = [120]
   \<and> mean_rounded [120] = 120 \<and> percentile95 [120] = 120
   \<and> map_of (summary constructor_record) ''constructor'' = None"
proof -
  have a: "aggregate \<lparr>date = toISODate today0, checks = [], summary = []\<rparr> constructor_entry
             = constructor_record"
    by code_simp
  have t: "todaysRecord today0 (Some []) = None" by code_simp
  from updateDailyFile_fresh [OF t, of constructor_entry]
  have h1: "updateDailyFile today0 constructor_entry (Some [])
     = Inr (Some [(''2024-04-10.json'', Doc constructor_record)])"
    by (simp add: a fileName_today0)
  have h2: "checks constructor_record = [constructor_entry]" by (simp add: constructor_record_def)
  have h3: "positive_samples (checks constructor_record) ''constructor'' = [120]" by code_simp
  have h4: "mean_rounded [120] = 120" "percentile95 [120] = 120" by code_simp+
  have h5: "map_of (summary constructor_record) ''constructor'' = None"
    by (simp add: constructor_record_def)
  from h1 h2 h3 h4 h5 show ?thesis by blast
qed

subsection \<open>A corrupt record\<close>

text \<open>
  C1, as the code has it. \<^verbatim>\<open>updateDailyFile\<close> parses an existing file with no
  handler: when the file of the current UTC date is corrupt the function throws, nothing
  is written, and the run ends in the handler of \<^verbatim>\<open>main\<close> with a failure. A fresh
  record holding just the new entry is created only when the date has no file.
\<close>

theorem corrupt_record_fails_run:
  "(todaysRecord today fs = Some Unparsable \<longrightarrow>
      updateDailyFile today e fs = Inl SyntaxError
      \<and> run_exit (main cfg today ts net fs) = Failed SyntaxError
      \<and> run_fs (main cfg today ts net fs) = fs)
   \<and> (todaysRecord today (Some files) = None \<longrightarrow>
      updateDailyFile today e (Some files)
        = Inr (Some (AList.update (fileName today)
            (Doc (aggregate \<lparr>date = toISODate today, checks = [], summary = []\<rparr> e)) files))
      \<and> checks (aggregate \<lparr>date = toISODate today, checks = [], summary = []\<rparr> e) = [e])"
proof (intro conjI impI)
  assume c: "todaysRecord today fs = Some Unparsable"
  then show "updateDailyFile today e fs = Inl SyntaxError" by (rule updateDailyFile_corrupt)
  from c obtain fl where fs: "fs = Some fl" by (cases fs) (simp_all add: todaysRecord_def)
  from c have "updateDailyFile today (fst (runAllChecks (buildChecks cfg) ts net)) fs
                 = Inl SyntaxError"
    by (rule updateDailyFile_corrupt)
  with fs have m: "main cfg today ts net fs
      = \<lparr>run_exit = Failed SyntaxError,
         run_fetched = snd (runAllChecks (buildChecks cfg) ts net), run_fs = fs\<rparr>"
    by (simp add: main_failed)
  from m show "run_exit (main cfg today ts net fs) = Failed SyntaxError" by simp
  from m show "run_fs (main cfg today ts net fs) = fs" by simp
next
  assume "todaysRecord today (Some files) = None"
  then show "updateDailyFile today e (Some files)
        = Inr (Some (AList.update (fileName today)
            (Doc (aggregate \<lparr>date = toISODate today, checks = [], summary = []\<rparr> e)) files))"
    by (rule updateDailyFile_fresh)
next
  show "checks (aggregate \<lparr>date = toISODate today, checks = [], summary = []\<rparr> e) = [e]"
    by (simp add: aggregate_def Let_def)
qed

theorem corrupt_record_fails_run_witness:
  "todaysRecord today0 corrupt_fs = Some Unparsable
   \<and> updateDailyFile today0 entry5 corrupt_fs = Inl SyntaxError
   \<and> todaysRecord today0 (Some []) = None
   \<and> (\<exists>d. updateDailyFile today0 entry5 (Some []) = Inr (Some [(''2024-04-10.json'', Doc d)])
          \<and> checks d = [entry5])"
proof -
  have h1: "todaysRecord today0 corrupt_fs = Some Unparsable" by code_simp
  have h2: "todaysRecord today0 (Some []) = None" by code_simp
  have f: "fileName today0 = ''2024-04-10.json''" by code_simp
  from corrupt_record_fails_run [of today0 corrupt_fs entry5 _ _ _ "[]"] h1 h2 f
  show ?thesis by simp
qed

text \<open>
  C1 as stated fails: with a corrupt file for the day, the update returns the parse
  error instead of a fresh record, the run fails, and the corrupt file stays as it was.
\<close>

theorem corrupt_record_not_recovered:
  "updateDailyFile today0 entry5 corrupt_fs = Inl SyntaxError
   \<and> run_exit (main one_config today0 ''2024-04-10T00:20:00.000Z'' net0 corrupt_fs) = Failed SyntaxError
   \<and> run_fs (main one_config today0 ''2024-04-10T00:20:00.000Z'' net0 corrupt_fs) = corrupt_fs"
proof -
  have c: "todaysRecord today0 corrupt_fs = Some Unparsable" by code_simp
  have u: "updateDailyFile today0 e corrupt_fs = Inl SyntaxError" for e
    using c by (rule updateDailyFile_corrupt)
  from main_failed [of today0 one_config "''2024-04-10T00:20:00.000Z''" net0
      "[(''2024-04-10.json'', Unparsable)]" SyntaxError] u
  have "main one_config today0 ''2024-04-10T00:20:00.000Z'' net0 corrupt_fs
      = \<lparr>run_exit = Failed SyntaxError,
         run_fetched = snd (runAllChecks (buildChecks one_config) ''2024-04-10T00:20:00.000Z'' net0),
         run_fs = corrupt_fs\<rparr>"
    by (simp add: corrupt_fs_def)
  with u show ?thesis by simp
qed


section \<open>Dates and their ISO strings\<close>

subsection \<open>Zero-padded numbers compare as numbers\<close>

lemma digit_less: "i < 10 \<Longrightarrow> j < 10 \<Longrightarrow> (digit i < digit j) = (i < j)"
  by (simp add: digit_def less_char_def)

lemma digit_eq: "i < 10 \<Longrightarrow> j < 10 \<Longrightarrow> (digit i = digit j) = (i = j)"
  by (simp add: digit_def)

lemma two_digits:
  fixes x y :: nat
  shows "(x div 10 < y div 10 \<or> x div 10 = y div 10 \<and> x mod 10 < y mod 10) = (x < y)"
proof -
  define a r b s where "a = x div 10" and "r = x mod 10" and "b = y div 10" and "s = y mod 10"
  have rs: "r < 10" "s < 10" by (simp_all add: r_def s_def)
  have xy: "x = 10 * a + r" "y = 10 * b + s" by (simp_all add: a_def r_def b_def s_def)
  have "(a < b \<or> a = b \<and> r < s) = (x < y)" using rs xy by arith
  then show ?thesis by (simp only: a_def r_def b_def s_def)
qed

lemma two_digits_eq:
  fixes x y :: nat
  shows "(x div 10 = y div 10 \<and> x mod 10 = y mod 10) = (x = y)"
  by (metis div_mult_mod_eq)

lemma lex_step:
  fixes x y :: nat
  shows "(x div 10 < y div 10 \<or> x div 10 = y div 10 \<and>
           (x mod 10 < y mod 10 \<or> x mod 10 = y mod 10 \<and> R))
         = (x < y \<or> x = y \<and> R)"
  using two_digits [of x y] two_digits_eq [of x y] by blast

lemma pad2_less:
  assumes "a < 100" "b < 100"
  shows "(pad2 a < pad2 b) = (a < b)"
proof -
  have m: "a div 10 mod 10 = a div 10" "b div 10 mod 10 = b div 10" using assms by simp_all
  have d: "a div 10 < 10" "b div 10 < 10" "a mod 10 < 10" "b mod 10 < 10" using assms by simp_all
  have "(pad2 a < pad2 b)
     = (a div 10 < b div 10 \<or> a div 10 = b div 10 \<and> a mod 10 < b mod 10)"
    by (simp add: pad2_def m digit_less [OF d(1) d(2)] digit_less [OF d(3) d(4)]
        digit_eq [OF d(1) d(2)])
  then show ?thesis by (simp only: two_digits)
qed

lemma pad4_less:
  assumes "a < 10000" "b < 10000"
  shows "(pad4 a < pad4 b) = (a < b)"
proof -
  have m: "a div 1000 mod 10 = a div 100 div 10" "b div 1000 mod 10 = b div 100 div 10"
    "a div 100 mod 10 = a div 10 div 10 mod 10" "b div 100 mod 10 = b div 10 div 10 mod 10"
    "a div 100 = a div 10 div 10" "b div 100 = b div 10 div 10"
    using assms by (simp_all add: div_mult2_eq [symmetric])
  have d3: "a div 100 div 10 < 10" "b div 100 div 10 < 10"
    using assms by (simp_all add: div_mult2_eq [symmetric])
  have d: "\<And>n::nat. n mod 10 < 10" by simp
  let ?R0 = "a mod 10 < b mod 10"
  let ?R1 = "a div 10 mod 10 < b div 10 mod 10 \<or> a div 10 mod 10 = b div 10 mod 10 \<and> ?R0"
  have "(pad4 a < pad4 b)
     = (a div 100 div 10 < b div 100 div 10 \<or> a div 100 div 10 = b div 100 div 10 \<and>
         (a div 100 mod 10 < b div 100 mod 10 \<or> a div 100 mod 10 = b div 100 mod 10 \<and> ?R1))"
    unfolding pad4_def m(1,2)
    by (simp add: digit_less [OF d3] digit_eq [OF d3] digit_less [OF d d] digit_eq [OF d d])
  also have "\<dots> = (a div 100 < b div 100 \<or> a div 100 = b div 100 \<and> ?R1)"
    by (rule lex_step)
  also have "\<dots> = (a div 10 div 10 < b div 10 div 10 \<or> a div 10 div 10 = b div 10 div 10 \<and> ?R1)"
    by (simp only: m(5,6))
  also have "\<dots> = (a div 10 < b div 10 \<or> a div 10 = b div 10 \<and> ?R0)"
    by (rule lex_step)
  also have "\<dots> = (a < b)" by (rule two_digits)
  finally show ?thesis .
qed

lemma pad4_eq:
  assumes "a < 10000" "b < 10000"
  shows "(pad4 a = pad4 b) = (a = b)"
  using pad4_less [OF assms] pad4_less [OF assms(2) assms(1)] by auto

lemma pad2_eq:
  assumes "a < 100" "b < 100"
  shows "(pad2 a = pad2 b) = (a = b)"
  using pad2_less [OF assms] pad2_less [OF assms(2) assms(1)] by auto

lemma length_pad: "length (pad4 n) = 4" "length (pad2 n) = 2"
  by (simp_all add: pad4_def pad2_def)

lemma append_less_same_length:
  fixes xs ys :: "'a::linorder list"
  shows "length xs = length ys \<Longrightarrow> (xs @ us < ys @ vs) = (xs < ys \<or> xs = ys \<and> us < vs)"
  by (induction xs ys rule: list_induct2) auto

subsection \<open>ISO dates compare as dates\<close>

lemma valid_date_bounds:
  assumes "valid_date d"
  shows "nat (year d) < 10000" "month d < 100" "day d < 100" "0 \<le> year d" "year d \<le> 9999"
  using assms by (auto simp: valid_date_def days_in_month_def split: if_splits)

lemma toISODate_valid:
  "valid_date d \<Longrightarrow>
   toISODate d = pad4 (nat (year d)) @ ''-'' @ pad2 (month d) @ ''-'' @ pad2 (day d)"
  by (simp add: toISODate_def valid_date_def)

lemma toISODate_less:
  assumes "valid_date a" "valid_date b"
  shows "(toISODate a < toISODate b) = date_less a b"
proof -
  note ba = valid_date_bounds [OF assms(1)] and bb = valid_date_bounds [OF assms(2)]
  have y: "(pad4 (nat (year a)) < pad4 (nat (year b))) = (year a < year b)"
    using pad4_less [OF ba(1) bb(1)] ba(4) bb(4) by auto
  have ye: "(pad4 (nat (year a)) = pad4 (nat (year b))) = (year a = year b)"
    using pad4_eq [OF ba(1) bb(1)] ba(4) bb(4) by auto
  have l4: "length (pad4 (nat (year a))) = length (pad4 (nat (year b)))"
    by (simp add: length_pad)
  have l2: "length (pad2 (month a)) = length (pad2 (month b))"
    by (simp add: length_pad)
  have "(toISODate a < toISODate b)
      = (pad4 (nat (year a)) @ (CHR ''-'' # (pad2 (month a) @ (CHR ''-'' # pad2 (day a))))
         < pad4 (nat (year b)) @ (CHR ''-'' # (pad2 (month b) @ (CHR ''-'' # pad2 (day b)))))"
    by (simp add: toISODate_valid [OF assms(1)] toISODate_valid [OF assms(2)])
  also have "\<dots> = (year a < year b \<or> year a = year b \<and>
        (pad2 (month a) @ (CHR ''-'' # pad2 (day a)) < pad2 (month b) @ (CHR ''-'' # pad2 (day b))))"
    by (simp only: append_less_same_length [OF l4] y ye Cons_less_Cons) simp
  also have "\<dots> = (year a < year b \<or> year a = year b \<and>
        (month a < month b \<or> month a = month b \<and> day a < day b))"
    by (simp only: append_less_same_length [OF l2] Cons_less_Cons
        pad2_less [OF ba(2) bb(2)] pad2_eq [OF ba(2) bb(2)] pad2_less [OF ba(3) bb(3)]) simp
  finally show ?thesis by (simp add: date_less_def)
qed

lemma date_less_trans: "date_less a b \<Longrightarrow> date_less b c \<Longrightarrow> date_less a c"
  by (auto simp: date_less_def)

lemma date_less_irrefl: "\<not> date_less a a"
  by (simp add: date_less_def)

lemma date_less_asym: "date_less a b \<Longrightarrow> \<not> date_less b a"
  by (auto simp: date_less_def)

lemma date_less_total: "\<not> date_less a b \<Longrightarrow> \<not> date_less b a \<Longrightarrow> a = b"
  by (cases a; cases b) (auto simp: date_less_def)

subsection \<open>Going back by days\<close>

lemma days_in_month_bounds: "28 \<le> days_in_month y m" "days_in_month y m \<le> 31"
  by (simp_all add: days_in_month_def)

lemma days_in_month_12: "days_in_month y 12 = 31"
  by (simp add: days_in_month_def)

lemma prev_day_less: "valid_date d \<Longrightarrow> date_less (prev_day d) d"
proof (cases d)
  case (Date y m dd)
  assume "valid_date d"
  with Date have "1 \<le> m" "1 \<le> dd" by (simp_all add: valid_date_def)
  with Date show ?thesis by (simp add: date_less_def)
qed

lemma prev_day_year: "year (prev_day d) \<le> year d"
  by (cases d) simp

lemma prev_day_valid:
  assumes "valid_date d" "0 \<le> year (prev_day d)"
  shows "valid_date (prev_day d)"
proof (cases d)
  case (Date y m dd)
  with assms(1) have v: "0 \<le> y" "y \<le> 9999" "1 \<le> m" "m \<le> 12" "1 \<le> dd"
    "dd \<le> days_in_month y m"
    by (simp_all add: valid_date_def)
  show ?thesis
  proof (cases "1 < dd")
    case True
    with v have "1 \<le> dd - 1" "dd - 1 \<le> days_in_month y m" by linarith+
    with Date v True show ?thesis by (simp add: valid_date_def)
  next
    case False
    note dd = this
    show ?thesis
    proof (cases "1 < m")
      case True
      have "1 \<le> days_in_month y (m - 1)"
        using days_in_month_bounds(1) [of y "m - 1"] by linarith
      moreover from True v have "1 \<le> m - 1" "m - 1 \<le> 12" by linarith+
      moreover from Date dd True
      have "prev_day d = Date y (m - 1) (days_in_month y (m - 1))" by simp
      ultimately show ?thesis using v by (simp add: valid_date_def)
    next
      case False
      with Date dd have p: "prev_day d = Date (y - 1) 12 31" by simp
      with assms(2) have "0 \<le> y - 1" by simp
      with v p show ?thesis by (simp add: valid_date_def days_in_month_12)
    qed
  qed
qed

lemma days_before_add: "days_before (a + b) d = days_before a (days_before b d)"
  by (induction b arbitrary: d) simp_all

lemma days_before_Suc: "days_before (Suc n) d = prev_day (days_before n d)"
  using days_before_add [of 1 n d] by simp

lemma days_before_year_mono: "j \<le> k \<Longrightarrow> year (days_before k d) \<le> year (days_before j d)"
proof (induction k)
  case 0 then show ?case by simp
next
  case (Suc k)
  show ?case
  proof (cases "j = Suc k")
    case True then show ?thesis by simp
  next
    case False
    with Suc.prems have "j \<le> k" by simp
    from Suc.IH [OF this] prev_day_year [of "days_before k d"]
    have "year (prev_day (days_before k d)) \<le> year (days_before j d)" by linarith
    then show ?thesis by (simp only: days_before_Suc)
  qed
qed

lemma days_before_valid:
  assumes "valid_date d" "0 \<le> year (days_before k d)" "j \<le> k"
  shows "valid_date (days_before j d)"
  using assms(3)
proof (induction j)
  case 0 with assms(1) show ?case by simp
next
  case (Suc j)
  then have v: "valid_date (days_before j d)" by simp
  from days_before_year_mono [OF Suc.prems, of d] assms(2)
  have "0 \<le> year (days_before (Suc j) d)" by linarith
  then have "0 \<le> year (prev_day (days_before j d))" by (simp only: days_before_Suc)
  from prev_day_valid [OF v this] show ?case by (simp only: days_before_Suc)
qed

lemma days_before_less:
  assumes "valid_date d" "0 \<le> year (days_before k d)" "j < k"
  shows "date_less (days_before k d) (days_before j d)"
  using assms(2,3)
proof (induction k)
  case 0 then show ?case by simp
next
  case (Suc k)
  from Suc.prems(1) have "0 \<le> year (prev_day (days_before k d))"
    by (simp only: days_before_Suc)
  with prev_day_year [of "days_before k d"]
  have yk: "0 \<le> year (days_before k d)" by linarith
  have vk: "valid_date (days_before k d)" by (rule days_before_valid [OF assms(1) yk]) simp
  have step: "date_less (days_before (Suc k) d) (days_before k d)"
    using prev_day_less [OF vk] by (simp only: days_before_Suc)
  show ?case
  proof (cases "j = k")
    case True with step show ?thesis by simp
  next
    case False
    with Suc.prems(2) have "j < k" by simp
    from date_less_trans [OF step Suc.IH [OF yk this]] show ?thesis .
  qed
qed

subsection \<open>File names\<close>

lemma digit_not_dot: "n < 10 \<Longrightarrow> digit n \<noteq> CHR ''.''"
proof
  assume n: "n < 10" and "digit n = CHR ''.''"
  then have "(of_char (digit n) :: nat) = of_char (CHR ''.'')" by simp
  with n show False by (simp add: digit_def)
qed

lemma no_dot_in_date:
  assumes "valid_date d"
  shows "CHR ''.'' \<notin> set (toISODate d)"
proof -
  have d: "\<And>n::nat. digit (n mod 10) \<noteq> CHR ''.''" by (rule digit_not_dot) simp
  show ?thesis
    by (simp add: toISODate_valid [OF assms] pad4_def pad2_def d d [symmetric])
qed

lemma removeFirst_suffix:
  "CHR ''.'' \<notin> set s \<Longrightarrow> removeFirst (CHR ''.'' # p) (s @ CHR ''.'' # p) = s"
proof (induction s)
  case Nil
  show ?case by simp
next
  case (Cons c s)
  then have "c \<noteq> CHR ''.''" by auto
  with Cons show ?case by simp
qed

lemma date_of_fileName:
  "valid_date d \<Longrightarrow> removeFirst ''.json'' (fileName d) = toISODate d"
  using removeFirst_suffix [OF no_dot_in_date, of d "''json''"] by (simp add: fileName_def)

lemma endsWith_fileName: "endsWith (fileName d) ''.json''"
  by (simp add: endsWith_def fileName_def)

lemma fileName_inj:
  assumes "valid_date a" "valid_date b" "fileName a = fileName b"
  shows "a = b"
proof -
  from assms(3) have e: "toISODate a = toISODate b" by (simp add: fileName_def)
  from e toISODate_less [OF assms(1,2)] have "\<not> date_less a b" by simp
  moreover from e toISODate_less [OF assms(2,1)] have "\<not> date_less b a" by simp
  ultimately show ?thesis by (rule date_less_total)
qed

section \<open>Properties of the retention manager\<close>

lemma fold_deleteStep:
  "fold (deleteStep c) fs st
     = (filter (\<lambda>kv. \<not> (fst kv \<in> set fs \<and> removeFirst ''.json'' (fst kv) < c)) (fst st),
        snd st @ map Deleted (filter (\<lambda>f. removeFirst ''.json'' f < c) fs))"
proof (induction fs arbitrary: st)
  case Nil
  show ?case by simp
next
  case (Cons f fs)
  show ?case
  proof (cases "removeFirst ''.json'' f < c")
    case True
    have "filter (\<lambda>kv. \<not> (fst kv \<in> set fs \<and> removeFirst ''.json'' (fst kv) < c))
            (AList.delete f (fst st))
          = filter (\<lambda>kv. \<not> (fst kv \<in> set (f # fs) \<and> removeFirst ''.json'' (fst kv) < c)) (fst st)"
      using True by (auto simp: AList.delete_eq intro: filter_cong)
    with True Cons.IH [of "deleteStep c f st"] show ?thesis
      by (simp add: deleteStep_def Let_def)
  next
    case False
    have "filter (\<lambda>kv. \<not> (fst kv \<in> set fs \<and> removeFirst ''.json'' (fst kv) < c)) (fst st)
          = filter (\<lambda>kv. \<not> (fst kv \<in> set (f # fs) \<and> removeFirst ''.json'' (fst kv) < c)) (fst st)"
      using False by (auto intro: filter_cong)
    with False Cons.IH [of "deleteStep c f st"] show ?thesis
      by (simp add: deleteStep_def Let_def)
  qed
qed

lemma map_of_filter_fst:
  "map_of (filter (\<lambda>kv. P (fst kv)) al) k = (if P k then map_of al k else None)"
  by (induction al) auto

lemma deletion_loop:
  "fst (fold (deleteStep c) (filter (\<lambda>f. endsWith f ''.json'') (map fst dir0)) (dir0, []))
     = filter (\<lambda>kv. \<not> (endsWith (fst kv) ''.json'' \<and> removeFirst ''.json'' (fst kv) < c)) dir0"
  by (auto simp: fold_deleteStep intro: filter_cong)

lemma deletion_loop_nothing_old:
  assumes "\<forall>k \<in> fst ` set d. \<not> (endsWith k ''.json'' \<and> removeFirst ''.json'' k < c)"
  shows "fold (deleteStep c) (filter (\<lambda>f. endsWith f ''.json'') (map fst d)) (d, []) = (d, [])"
proof -
  let ?fs = "filter (\<lambda>f. endsWith f ''.json'') (map fst d)"
  have a: "filter (\<lambda>f. removeFirst ''.json'' f < c) ?fs = []"
    using assms by (auto simp: filter_empty_conv)
  have "\<forall>kv \<in> set d. \<not> (fst kv \<in> set ?fs \<and> removeFirst ''.json'' (fst kv) < c)"
    using assms by auto
  then have b: "filter (\<lambda>kv. \<not> (fst kv \<in> set ?fs \<and> removeFirst ''.json'' (fst kv) < c)) d = d"
    by (rule filter_True)
  show ?thesis by (simp only: fold_deleteStep fst_conv snd_conv a b) simp
qed

lemma map_of_stripYesterday:
  "map_of (fst (stripYesterday y st)) k
     = (if k = y @ ''.json''
        then (case map_of (fst st) k of
                Some (Doc data) \<Rightarrow> Some (Doc (data\<lparr>checks := []\<rparr>))
              | other \<Rightarrow> other)
        else map_of (fst st) k)"
  by (auto simp: stripYesterday_def Let_def update_conv' split: option.splits stored.splits)

lemma stripYesterday_again:
  "stripYesterday y (fst (stripYesterday y st), l) = (fst (stripYesterday y st), l)"
  by (auto simp: stripYesterday_def Let_def update_conv' split: option.splits stored.splits)

lemma keys_stripYesterday:
  "fst ` set (fst (stripYesterday y st)) = fst ` set (fst st)"
proof (cases "map_of (fst st) (y @ ''.json'')")
  case None
  then show ?thesis by (simp add: stripYesterday_def)
next
  case (Some f)
  then have "(y @ ''.json'', f) \<in> set (fst st)" by (rule map_of_SomeD)
  then have "y @ ''.json'' \<in> fst ` set (fst st)" by force
  with Some show ?thesis
    by (cases f) (auto simp: stripYesterday_def Let_def dom_update)
qed

lemma cleanupOldData_unfold:
  assumes "c = toISODate (days_before 90 today)" and "y = toISODate (days_before 1 today)"
  shows "cleanupOldData today (Some d)
     = (Some (fst (stripYesterday y
          (fold (deleteStep c) (filter (\<lambda>f. endsWith f ''.json'') (map fst d)) (d, [])))),
        snd (stripYesterday y
          (fold (deleteStep c) (filter (\<lambda>f. endsWith f ''.json'') (map fst d)) (d, []))))"
  unfolding assms by (simp add: cleanupOldData_def Let_def)

subsection \<open>A run of the clean-up on 2024-04-10\<close>

lemma before_90: "days_before 90 today0 = Date 2024 1 11"
  by code_simp

lemma before_91: "days_before 91 today0 = Date 2024 1 10"
proof -
  have "days_before (Suc 90) today0 = prev_day (days_before 90 today0)"
    by (rule days_before_Suc)
  then show ?thesis by (simp add: before_90)
qed

lemma before_1: "days_before 1 today0 = Date 2024 4 9"
  by (simp add: today0_def)

lemma cleanup_run:
  "cleanupOldData today0 (Some dir_before)
     = (Some dir_after, [Deleted ''2024-01-10.json'', Stripped ''2024-04-09.json''])"
proof -
  have c: "''2024-01-11'' = toISODate (days_before 90 today0)"
    unfolding before_90 by code_simp
  have y: "''2024-04-09'' = toISODate (days_before 1 today0)"
    unfolding before_1 by code_simp
  have loop: "fold (deleteStep ''2024-01-11'')
                (filter (\<lambda>f. endsWith f ''.json'') (map fst dir_before)) (dir_before, [])
              = (AList.delete ''2024-01-10.json'' dir_before, [Deleted ''2024-01-10.json''])"
    by code_simp
  have strip: "stripYesterday ''2024-04-09''
                 (AList.delete ''2024-01-10.json'' dir_before, [Deleted ''2024-01-10.json''])
               = (dir_after, [Deleted ''2024-01-10.json'', Stripped ''2024-04-09.json''])"
    by code_simp
  show ?thesis by (simp only: cleanupOldData_unfold [OF c y] loop strip fst_conv snd_conv)
qed

text \<open>
  C8. One call of \<^verbatim>\<open>cleanupOldData\<close> deletes every daily record dated more than
  90 days before today (91 days before: deleted), keeps as they are the records dated
  at most 90 days before today other than yesterday's (exactly 90 days before:
  retained), and leaves yesterday's record with an empty entry sequence and the same
  summaries. Dates are those of the years 0 to 9999.
\<close>

theorem retention_policy:
  assumes "valid_date today" and "valid_date (days_before 90 today)"
  shows "\<exists>dir1. fst (cleanupOldData today (Some dir0)) = Some dir1
     \<and> (\<forall>k > 90. valid_date (days_before k today) \<longrightarrow>
           map_of dir1 (fileName (days_before k today)) = None)
     \<and> (\<forall>k \<le> 90. k \<noteq> 1 \<longrightarrow>
           map_of dir1 (fileName (days_before k today))
             = map_of dir0 (fileName (days_before k today)))
     \<and> (\<forall>data. map_of dir0 (fileName (days_before 1 today)) = Some (Doc data) \<longrightarrow>
           (\<exists>data'. map_of dir1 (fileName (days_before 1 today)) = Some (Doc data')
               \<and> checks data' = [] \<and> summary data' = summary data \<and> date data' = date data))"
proof -
  define c where "c = toISODate (days_before 90 today)"
  define yd where "yd = days_before 1 today"
  have y_def: "toISODate yd = toISODate (days_before 1 today)" by (simp only: yd_def)
  note unfold = cleanupOldData_unfold [OF c_def y_def]
  let ?st1 = "fold (deleteStep c) (filter (\<lambda>f. endsWith f ''.json'') (map fst dir0)) (dir0, [])"
  define dir1 where "dir1 = fst (stripYesterday (toISODate yd) ?st1)"
  have d1: "fst (cleanupOldData today (Some dir0)) = Some dir1"
    by (simp add: unfold dir1_def)
  have st1: "map_of (fst ?st1) k
      = (if endsWith k ''.json'' \<and> removeFirst ''.json'' k < c then None else map_of dir0 k)" for k
    using map_of_filter_fst
      [of "\<lambda>f. \<not> (endsWith f ''.json'' \<and> removeFirst ''.json'' f < c)" dir0 k]
    by (simp only: deletion_loop) simp
  have m: "map_of dir1 k
      = (if k = fileName yd
         then (case map_of (fst ?st1) k of
                 Some (Doc data) \<Rightarrow> Some (Doc (data\<lparr>checks := []\<rparr>))
               | other \<Rightarrow> other)
         else map_of (fst ?st1) k)" for k
    unfolding dir1_def fileName_def by (rule map_of_stripYesterday)
  have y90: "0 \<le> year (days_before 90 today)" using assms(2) by (simp add: valid_date_def)
  have valid_le: "valid_date (days_before k today)" if "k \<le> 90" for k
    using days_before_valid [OF assms(1) y90 that] .
  have v1: "valid_date yd" unfolding yd_def by (rule valid_le) simp
  have not_old: "\<not> removeFirst ''.json'' (fileName (days_before k today)) < c" if "k \<le> 90" for k
  proof (cases "k = 90")
    case True
    then show ?thesis by (simp add: date_of_fileName [OF assms(2)] c_def)
  next
    case False
    with that have "k < 90" by simp
    from days_before_less [OF assms(1) y90 this]
    have "\<not> date_less (days_before k today) (days_before 90 today)" by (rule date_less_asym)
    then show ?thesis
      by (simp add: date_of_fileName [OF valid_le [OF that]] c_def
          toISODate_less [OF valid_le [OF that] assms(2)])
  qed
  have deleted: "map_of dir1 (fileName (days_before k today)) = None"
    if "90 < k" "valid_date (days_before k today)" for k
  proof -
    from that(2) have yk: "0 \<le> year (days_before k today)" by (simp add: valid_date_def)
    from days_before_less [OF assms(1) yk that(1)]
    have "toISODate (days_before k today) < c"
      by (simp add: toISODate_less [OF that(2) assms(2)] c_def)
    then have "map_of (fst ?st1) (fileName (days_before k today)) = None"
      by (simp add: st1 endsWith_fileName date_of_fileName [OF that(2)])
    then show ?thesis
      by (cases "fileName (days_before k today) = fileName yd") (simp_all add: m)
  qed
  have kept: "map_of dir1 (fileName (days_before k today))
                = map_of dir0 (fileName (days_before k today))"
    if "k \<le> 90" "k \<noteq> 1" for k
  proof -
    have "days_before k today \<noteq> yd"
    proof (cases "k < 1")
      case True
      from v1 have "0 \<le> year (days_before 1 today)" by (simp only: yd_def valid_date_def)
      from days_before_less [OF assms(1) this True]
      have "date_less yd (days_before k today)" by (simp only: yd_def)
      then show ?thesis using date_less_irrefl by metis
    next
      case False
      with that(2) have k1: "1 < k" by simp
      from valid_le [OF that(1)] have "0 \<le> year (days_before k today)"
        by (simp add: valid_date_def)
      from days_before_less [OF assms(1) this k1]
      have "date_less (days_before k today) yd" by (simp only: yd_def)
      then show ?thesis using date_less_irrefl by metis
    qed
    with fileName_inj [OF valid_le [OF that(1)] v1]
    have "fileName (days_before k today) \<noteq> fileName yd" by blast
    with not_old [OF that(1)] show ?thesis by (simp add: m st1)
  qed
  have stripped: "\<exists>data'. map_of dir1 (fileName yd) = Some (Doc data')
               \<and> checks data' = [] \<and> summary data' = summary data \<and> date data' = date data"
    if "map_of dir0 (fileName yd) = Some (Doc data)" for data
  proof -
    have "\<not> removeFirst ''.json'' (fileName yd) < c"
      unfolding yd_def by (rule not_old) simp
    with that have "map_of dir1 (fileName yd) = Some (Doc (data\<lparr>checks := []\<rparr>))"
      by (simp add: m st1)
    then show ?thesis by simp
  qed
  note stripped' = stripped [unfolded yd_def]
  from d1 deleted kept stripped' show ?thesis by blast
qed

theorem retention_policy_witness:
  "valid_date today0 \<and> valid_date (days_before 90 today0)
   \<and> fst (cleanupOldData today0 (Some dir_before)) = Some dir_after
   \<and> fileName (days_before 91 today0) = ''2024-01-10.json''
   \<and> map_of dir_before ''2024-01-10.json'' = Some (Doc (archived ''2024-01-10''))
   \<and> map_of dir_after ''2024-01-10.json'' = None
   \<and> fileName (days_before 90 today0) = ''2024-01-11.json''
   \<and> map_of dir_after ''2024-01-11.json'' = Some (Doc (archived ''2024-01-11''))
   \<and> fileName (days_before 1 today0) = ''2024-04-09.json''
   \<and> (\<exists>data'. map_of dir_after ''2024-04-09.json'' = Some (Doc data')
          \<and> checks data' = [] \<and> summary data' = summary yesterday_record)"
proof -
  have h1: "valid_date today0" by code_simp
  have h2: "valid_date (days_before 90 today0)" unfolding before_90 by code_simp
  have h3: "valid_date (days_before 91 today0)" unfolding before_91 by code_simp
  have r: "fst (cleanupOldData today0 (Some dir_before)) = Some dir_after"
    by (simp add: cleanup_run)
  have f91: "fileName (days_before 91 today0) = ''2024-01-10.json''"
    unfolding before_91 by code_simp
  have f90: "fileName (days_before 90 today0) = ''2024-01-11.json''"
    unfolding before_90 by code_simp
  have f1: "fileName (days_before 1 today0) = ''2024-04-09.json''"
    unfolding before_1 by code_simp
  have b91: "map_of dir_before ''2024-01-10.json'' = Some (Doc (archived ''2024-01-10''))"
    by code_simp
  have b90: "map_of dir_before ''2024-01-11.json'' = Some (Doc (archived ''2024-01-11''))"
    by code_simp
  have b1: "map_of dir_before ''2024-04-09.json'' = Some (Doc yesterday_record)"
    by code_simp
  from retention_policy [OF h1 h2, of dir_before] r
  have d: "\<And>k. 90 < k \<Longrightarrow> valid_date (days_before k today0) \<Longrightarrow>
             map_of dir_after (fileName (days_before k today0)) = None"
    and k: "\<And>k. k \<le> 90 \<Longrightarrow> k \<noteq> 1 \<Longrightarrow>
             map_of dir_after (fileName (days_before k today0))
               = map_of dir_before (fileName (days_before k today0))"
    and s: "\<And>data. map_of dir_before (fileName (days_before 1 today0)) = Some (Doc data) \<Longrightarrow>
             \<exists>data'. map_of dir_after (fileName (days_before 1 today0)) = Some (Doc data')
               \<and> checks data' = [] \<and> summary data' = summary data \<and> date data' = date data"
    by auto
  from d [of 91, unfolded f91] h3 have c1: "map_of dir_after ''2024-01-10.json'' = None"
    by simp
  from k [of 90, unfolded f90] b90
  have c2: "map_of dir_after ''2024-01-11.json'' = Some (Doc (archived ''2024-01-11''))"
    by simp
  from s [of yesterday_record, unfolded f1] b1
  have c3: "\<exists>data'. map_of dir_after ''2024-04-09.json'' = Some (Doc data')
          \<and> checks data' = [] \<and> summary data' = summary yesterday_record"
    by auto
  from h1 h2 r f91 b91 c1 f90 c2 f1 c3 show ?thesis by blast
qed

text \<open>
  C9. \<^verbatim>\<open>cleanupOldData\<close> is idempotent: a second call on the state the first
  one left, on the same day, returns that state and prints nothing: no file is
  deleted and yesterday's record is not rewritten.
\<close>

theorem cleanup_idempotent:
  "cleanupOldData today (fst (cleanupOldData today fs)) = (fst (cleanupOldData today fs), [])"
proof (cases fs)
  case None
  then show ?thesis by (simp add: cleanupOldData_def)
next
  case (Some dir0)
  define c where "c = toISODate (days_before 90 today)"
  define y where "y = toISODate (days_before 1 today)"
  note unfold = cleanupOldData_unfold [OF c_def y_def]
  let ?st1 = "fold (deleteStep c) (filter (\<lambda>f. endsWith f ''.json'') (map fst dir0)) (dir0, [])"
  let ?d2 = "fst (stripYesterday y ?st1)"
  have r1: "fst (cleanupOldData today fs) = Some ?d2"
    using Some by (simp add: unfold)
  have "\<forall>k \<in> fst ` set (fst ?st1). \<not> (endsWith k ''.json'' \<and> removeFirst ''.json'' k < c)"
    by (simp only: deletion_loop) auto
  then have "\<forall>k \<in> fst ` set ?d2. \<not> (endsWith k ''.json'' \<and> removeFirst ''.json'' k < c)"
    by (simp only: keys_stripYesterday)
  then have loop2: "fold (deleteStep c) (filter (\<lambda>f. endsWith f ''.json'') (map fst ?d2)) (?d2, [])
                = (?d2, [])"
    by (rule deletion_loop_nothing_old)
  have "cleanupOldData today (Some ?d2) = (Some ?d2, [])"
    by (simp only: unfold loop2 stripYesterday_again fst_conv snd_conv)
  with r1 show ?thesis by simp
qed

theorem cleanup_idempotent_witness:
  "cleanupOldData today0 (Some dir_before)
     = (Some dir_after, [Deleted ''2024-01-10.json'', Stripped ''2024-04-09.json''])
   \<and> cleanupOldData today0 (Some dir_after) = (Some dir_after, [])"
  using cleanup_idempotent [of today0 "Some dir_before"] by (simp add: cleanup_run)


end
